theory Spec2Isabelle
  imports Complex_Main
begin

section \<open>Snake-case aliases for Avro schemas: the model of \<open>app.py\<close>\<close>

subsection \<open>Strings\<close>

text \<open>
  A Python \<open>str\<close> is a sequence of code points. It is modelled by a HOL \<open>string\<close>, whose
  characters are read as the code points 0 to 255 (ASCII and the Latin-1 block); code
  points beyond 255 are outside the model. Avro names are ASCII.

  \<open>ascii_upper\<close> is the character class \<open>[A-Z]\<close> of the regular expression in
  \<open>to_snake_case\<close>. \<open>isupper\<close> is Python's \<open>str.isupper\<close> on one character of the
  modelled range: the ASCII capitals and the Latin-1 capitals (all of 192 to 222 but the
  multiplication sign 215). \<open>lower\<close> is \<open>str.lower\<close>: every capital of the range has its
  small letter 32 places further on, every other character stays.
\<close>

definition ascii_upper :: "char \<Rightarrow> bool" where
  "ascii_upper c \<longleftrightarrow> 65 \<le> (of_char c :: nat) \<and> (of_char c :: nat) \<le> 90"

definition isupper :: "char \<Rightarrow> bool" where
  "isupper c \<longleftrightarrow>
     (65 \<le> (of_char c :: nat) \<and> (of_char c :: nat) \<le> 90) \<or>
     (192 \<le> (of_char c :: nat) \<and> (of_char c :: nat) \<le> 222 \<and> (of_char c :: nat) \<noteq> 215)"

definition lower_char :: "char \<Rightarrow> char" where
  "lower_char c = (if isupper c then char_of ((of_char c :: nat) + 32) else c)"

definition lower :: "string \<Rightarrow> string" where
  "lower s = map lower_char s"

text \<open>
  \<open>re.sub(r'(?<!^)(?=[A-Z])', '_', name)\<close>: the pattern matches the empty string at every
  position that is not the start of the string (\<open>(?<!^)\<close>; \<open>^\<close> without the multi-line
  flag holds at position 0 only) and that is followed by a character of \<open>[A-Z]\<close>
  (\<open>(?=[A-Z])\<close>). Each match is replaced by an underscore, so an underscore is put in
  front of every \<open>[A-Z]\<close> character but one at position 0. \<open>sub_tail\<close> does it for the
  positions from 1 on, \<open>re_sub\<close> keeps the first character as it is.
\<close>

fun sub_tail :: "string \<Rightarrow> string" where
  "sub_tail [] = []"
| "sub_tail (c # cs) = (if ascii_upper c then CHR ''_'' # c # sub_tail cs else c # sub_tail cs)"

fun re_sub :: "string \<Rightarrow> string" where
  "re_sub [] = []"
| "re_sub (c # cs) = c # sub_tail cs"

definition to_snake_case :: "string \<Rightarrow> string" where
  "to_snake_case name = lower (re_sub name)"

text \<open>\<open>str.startswith\<close> and \<open>str.removeprefix\<close>.\<close>

fun startswith :: "string \<Rightarrow> string \<Rightarrow> bool" where
  "startswith s [] = True"
| "startswith [] (p # ps) = False"
| "startswith (c # cs) (p # ps) = (c = p \<and> startswith cs ps)"

definition removeprefix :: "string \<Rightarrow> string \<Rightarrow> string" where
  "removeprefix s p = (if startswith s p then drop (length p) s else s)"

subsection \<open>The schema tree\<close>

text \<open>
  The value \<open>json.load\<close> returns: \<open>None\<close>, a bool, an int, a float, a str, a list or a
  dict. A dict keeps its keys in insertion order, so it is an association list; a key is
  looked up at its first entry. The traversal never looks into a number, so a float is
  carried as a real. The tree holds no object twice (it is a tree, as \<open>json.load\<close> builds
  it), so the in-place updates of the source are modelled by returning the updated
  subtree, which the caller puts back where it was.
\<close>

datatype json =
    JNull
  | JBool bool
  | JInt int
  | JFloat real
  | JStr string
  | JList "json list"
  | JDict "(string \<times> json) list"

type_synonym dict = "(string \<times> json) list"

text \<open>The exceptions the traversal can raise.\<close>

datatype py_error = KeyError string | TypeError | AttributeError

text \<open>
  \<open>d[k] = v\<close>: an existing key keeps its place and gets the new value, a new key goes to
  the end. \<open>d[k]\<close> raises \<open>KeyError\<close> on a missing key; \<open>d.get(k, default)\<close> does not.
\<close>

fun setitem :: "dict \<Rightarrow> string \<Rightarrow> json \<Rightarrow> dict" where
  "setitem [] k v = [(k, v)]"
| "setitem ((k', v') # kvs) k v =
     (if k' = k then (k, v) # kvs else (k', v') # setitem kvs k v)"

definition getitem :: "dict \<Rightarrow> string \<Rightarrow> py_error + json" where
  "getitem d k = (case map_of d k of None \<Rightarrow> Inl (KeyError k) | Some v \<Rightarrow> Inr v)"

definition dict_get :: "dict \<Rightarrow> string \<Rightarrow> json \<Rightarrow> json" where
  "dict_get d k dflt = (case map_of d k of None \<Rightarrow> dflt | Some v \<Rightarrow> v)"

text \<open>
  What a \<open>for\<close> loop iterates over: the elements of a list, the keys of a dict, the
  characters of a str (each a str of length one); anything else is not iterable.
\<close>

fun iter :: "json \<Rightarrow> py_error + json list" where
  "iter (JList xs) = Inr xs"
| "iter (JDict kvs) = Inr (map (\<lambda>kv. JStr (fst kv)) kvs)"
| "iter (JStr s) = Inr (map (\<lambda>c. JStr [c]) s)"
| "iter _ = Inl TypeError"

subsection \<open>The two alias adders\<close>

text \<open>
  \<open>add_alias_to_record\<close> does nothing on a schema without \<open>name\<close>. A \<open>name\<close> that is no
  str has no \<open>removeprefix\<close>, and an \<open>aliases\<close> that is no list has no \<open>append\<close>: both
  raise \<open>AttributeError\<close>.
\<close>

definition add_alias_to_record :: "dict \<Rightarrow> string \<Rightarrow> py_error + dict" where
  "add_alias_to_record schema prepend_subject_name =
     (case map_of schema ''name'' of
        None \<Rightarrow> Inr schema
      | Some (JStr name) \<Rightarrow>
          (let snake_case_name = to_snake_case (removeprefix name prepend_subject_name) in
           case map_of schema ''aliases'' of
             None \<Rightarrow> Inr (setitem schema ''aliases'' (JList [JStr snake_case_name]))
           | Some (JList al) \<Rightarrow>
               Inr (setitem schema ''aliases'' (JList (al @ [JStr snake_case_name])))
           | Some _ \<Rightarrow> Inl AttributeError)
      | Some _ \<Rightarrow> Inl AttributeError)"

text \<open>
  \<open>add_alias_to_field\<close> reads \<open>field["name"]\<close> first: \<open>KeyError\<close> on a dict without the
  key, \<open>TypeError\<close> on anything that is no dict (a list or a str is indexed by integers,
  the rest is not subscriptable). \<open>re.sub\<close> raises \<open>TypeError\<close> on a name that is no str.
\<close>

definition add_alias_to_field :: "json \<Rightarrow> py_error + dict" where
  "add_alias_to_field field =
     (case field of
        JDict d \<Rightarrow>
          (case map_of d ''name'' of
             None \<Rightarrow> Inl (KeyError ''name'')
           | Some (JStr name) \<Rightarrow>
               (let snake_case_name = to_snake_case name in
                case map_of d ''aliases'' of
                  None \<Rightarrow> Inr (setitem d ''aliases'' (JList [JStr snake_case_name]))
                | Some (JList al) \<Rightarrow>
                    Inr (setitem d ''aliases'' (JList (al @ [JStr snake_case_name])))
                | Some _ \<Rightarrow> Inl AttributeError)
           | Some _ \<Rightarrow> Inl TypeError)
      | _ \<Rightarrow> Inl TypeError)"

subsection \<open>The traversal\<close>

text \<open>\<open>isinstance(x, dict)\<close>.\<close>

fun is_dict :: "json \<Rightarrow> bool" where
  "is_dict (JDict _) = True"
| "is_dict _ = False"

text \<open>
  Facts for the termination of the traversal: a value stored in a dict is smaller than
  the dict, the adders leave every key but \<open>aliases\<close> as it was, and the loop over the
  fields goes on only as long as the elements are dicts.
\<close>

lemma map_of_setitem: "map_of (setitem d k v) k' = (if k' = k then Some v else map_of d k')"
  by (induction d k v rule: setitem.induct) auto

lemma size_map_of: "map_of d k = Some v \<Longrightarrow> size v < size (JDict d)"
  by (induction d) (auto split: if_splits)

lemma add_alias_to_record_other:
  "add_alias_to_record d p = Inr d1 \<Longrightarrow> k \<noteq> ''aliases'' \<Longrightarrow> map_of d1 k = map_of d k"
  by (auto simp: add_alias_to_record_def Let_def map_of_setitem
      split: option.splits json.splits)

lemma add_alias_to_field_other:
  "add_alias_to_field f = Inr d1 \<Longrightarrow>
     \<exists>d. f = JDict d \<and> (\<forall>k. k \<noteq> ''aliases'' \<longrightarrow> map_of d1 k = map_of d k)"
  by (auto simp: add_alias_to_field_def Let_def map_of_setitem
      split: option.splits json.splits)

lemma size_takeWhile: "size_list f (takeWhile P xs) \<le> size_list f xs"
  by (induction xs) auto

lemma takeWhile_is_dict_strs: "takeWhile is_dict (map (\<lambda>x. JStr (g x)) xs) = []"
  by (cases xs) auto

lemma iter_measure:
  "iter v = Inr fs \<Longrightarrow> size_list size (takeWhile is_dict fs) \<le> size v"
proof (cases v)
  case (JList xs)
  assume "iter v = Inr fs"
  with JList have "fs = xs" by simp
  then show ?thesis
    using JList size_takeWhile [of size is_dict xs] by simp
qed (auto simp: takeWhile_is_dict_strs)

lemma size_dict_get:
  "size (dict_get d k dflt) \<le> max (size dflt) (size (JDict d) - 1)"
proof (cases "map_of d k")
  case None
  then show ?thesis by (simp add: dict_get_def)
next
  case (Some v)
  then show ?thesis
    using size_map_of [OF Some] by (simp add: dict_get_def)
qed

lemma fields_measure:
  assumes "add_alias_to_record d p = Inr d1"
    and "iter (dict_get d1 ''fields'' (JList [])) = Inr fs"
  shows "size_list size (takeWhile is_dict fs) < size (JDict d)"
proof (cases "map_of d ''fields''")
  case None
  with assms(1) have "map_of d1 ''fields'' = None"
    by (simp add: add_alias_to_record_other)
  with assms(2) show ?thesis by (auto simp: dict_get_def)
next
  case (Some v)
  with assms(1) have "map_of d1 ''fields'' = Some v"
    by (simp add: add_alias_to_record_other)
  with assms(2) have "iter v = Inr fs" by (simp add: dict_get_def)
  then have "size_list size (takeWhile is_dict fs) \<le> size v" by (rule iter_measure)
  with size_map_of [OF Some] show ?thesis by simp
qed

lemma field_type_measure:
  assumes "add_alias_to_field field = Inr d1" and "getitem d1 ''type'' = Inr t"
  shows "is_dict field \<and> size t < size field"
proof -
  from assms(1) obtain d where d: "field = JDict d"
    and same: "\<forall>k. k \<noteq> ''aliases'' \<longrightarrow> map_of d1 k = map_of d k"
    using add_alias_to_field_other by blast
  from assms(2) have "map_of d1 ''type'' = Some t"
    by (simp add: getitem_def split: option.splits)
  with same have "map_of d ''type'' = Some t" by simp
  with d show ?thesis using size_map_of by simp
qed

text \<open>
  \<open>traverse_schema\<close> and \<open>_traverse_type\<close> (here \<open>traverse_type\<close>), with their two
  \<open>for\<close> loops as \<open>traverse_fields\<close> (the loop over \<open>fields\<close>) and \<open>traverse_union\<close>
  (the loop over the members of a union). Each returns the object it was given as the
  source leaves it, or the exception that escapes. \<open>schema.get\<close> on anything but a dict
  raises \<open>AttributeError\<close>. The fields are read from the schema after the record's
  alias has been added; the updated fields go back under \<open>fields\<close> when that key holds
  a list (otherwise the loop ran over keys or characters, or over the default \<open>[]\<close>, and
  there is nothing to put back). A field's type is read with \<open>field["type"]\<close> after the
  field's alias has been added. The recursion depth of the interpreter is taken as
  unbounded.
\<close>

function traverse_schema :: "json \<Rightarrow> string \<Rightarrow> py_error + json"
  and traverse_fields :: "json list \<Rightarrow> string \<Rightarrow> py_error + json list"
  and traverse_type :: "json \<Rightarrow> string \<Rightarrow> py_error + json"
  and traverse_union :: "json list \<Rightarrow> string \<Rightarrow> py_error + json list"
where
  "traverse_schema schema prepend_subject_name =
     (case schema of
        JDict d \<Rightarrow>
          (let schema_type = dict_get d ''type'' JNull in
           if schema_type = JStr ''record'' then
             (case add_alias_to_record d prepend_subject_name of
                Inl e \<Rightarrow> Inl e
              | Inr d1 \<Rightarrow>
                  (let fields = dict_get d1 ''fields'' (JList []) in
                   case iter fields of
                     Inl e \<Rightarrow> Inl e
                   | Inr fs \<Rightarrow>
                       (case traverse_fields fs prepend_subject_name of
                          Inl e \<Rightarrow> Inl e
                        | Inr fs' \<Rightarrow>
                            (case map_of d1 ''fields'' of
                               Some (JList _) \<Rightarrow> Inr (JDict (setitem d1 ''fields'' (JList fs')))
                             | _ \<Rightarrow> Inr (JDict d1)))))
           else if schema_type = JStr ''array'' then
             (let items = dict_get d ''items'' JNull in
              case traverse_type items prepend_subject_name of
                Inl e \<Rightarrow> Inl e
              | Inr items' \<Rightarrow>
                  (case map_of d ''items'' of
                     Some _ \<Rightarrow> Inr (JDict (setitem d ''items'' items'))
                   | None \<Rightarrow> Inr (JDict d)))
           else Inr (JDict d))
      | _ \<Rightarrow> Inl AttributeError)"
| "traverse_fields [] prepend_subject_name = Inr []"
| "traverse_fields (field # rest) prepend_subject_name =
     (case add_alias_to_field field of
        Inl e \<Rightarrow> Inl e
      | Inr f1 \<Rightarrow>
          (case getitem f1 ''type'' of
             Inl e \<Rightarrow> Inl e
           | Inr field_type \<Rightarrow>
               (case traverse_type field_type prepend_subject_name of
                  Inl e \<Rightarrow> Inl e
                | Inr field_type' \<Rightarrow>
                    (case traverse_fields rest prepend_subject_name of
                       Inl e \<Rightarrow> Inl e
                     | Inr rest' \<Rightarrow> Inr (JDict (setitem f1 ''type'' field_type') # rest')))))"
| "traverse_type type_obj prepend_subject_name =
     (if is_dict type_obj then traverse_schema type_obj prepend_subject_name
      else
        (case type_obj of
           JList ts \<Rightarrow>
             (case traverse_union ts prepend_subject_name of
                Inl e \<Rightarrow> Inl e
              | Inr ts' \<Rightarrow> Inr (JList ts'))
         | _ \<Rightarrow> Inr type_obj))"
| "traverse_union [] prepend_subject_name = Inr []"
| "traverse_union (t # rest) prepend_subject_name =
     (if is_dict t then
        (case traverse_schema t prepend_subject_name of
           Inl e \<Rightarrow> Inl e
         | Inr t' \<Rightarrow>
             (case traverse_union rest prepend_subject_name of
                Inl e \<Rightarrow> Inl e
              | Inr rest' \<Rightarrow> Inr (t' # rest')))
      else
        (case traverse_union rest prepend_subject_name of
           Inl e \<Rightarrow> Inl e
         | Inr rest' \<Rightarrow> Inr (t # rest')))"
  by pat_completeness auto

termination
  apply (relation "measure (\<lambda>x. case x of
       Inl (Inl (s, p)) \<Rightarrow> 2 * size s + 1
     | Inl (Inr (fs, p)) \<Rightarrow> 2 * size_list size (takeWhile is_dict fs)
     | Inr (Inl (t, p)) \<Rightarrow> 2 * size t + 2
     | Inr (Inr (ts, p)) \<Rightarrow> 2 * size_list size ts + 1)")
  apply simp_all
  subgoal by (frule (1) fields_measure) simp
  subgoal for schema d by (use size_dict_get [of d "''items''" JNull] in simp)
  subgoal by (frule (1) field_type_measure) simp
  subgoal by (frule (1) field_type_measure) simp
  done

declare traverse_schema.simps [simp del] traverse_type.simps [simp del]

text \<open>\<open>add_aliases_to_avro_schema\<close> traverses and returns the schema.\<close>

definition add_aliases_to_avro_schema :: "json \<Rightarrow> string \<Rightarrow> py_error + json" where
  "add_aliases_to_avro_schema schema prepend_subject_name =
     (case traverse_schema schema prepend_subject_name of
        Inl e \<Rightarrow> Inl e
      | Inr schema' \<Rightarrow> Inr schema')"

subsection \<open>Vocabulary of the properties\<close>

text \<open>
  \<open>ident_char\<close>: a letter or a digit of an Avro name (ASCII). \<open>aliases_of\<close>: the entries of
  a node's \<open>aliases\<close> list, none when the key is absent. \<open>aliases_ok\<close>: the key is absent or
  holds a list, as the data model has it. \<open>with_alias d a\<close>: the node \<open>d\<close> with \<open>a\<close> appended
  to its \<open>aliases\<close> list, the list being created at the end of the node when absent.
  \<open>collect\<close>: the results of the iterations of a loop, or the first exception.
\<close>

definition ident_char :: "char \<Rightarrow> bool" where
  "ident_char c \<longleftrightarrow>
     (48 \<le> (of_char c :: nat) \<and> (of_char c :: nat) \<le> 57) \<or>
     (65 \<le> (of_char c :: nat) \<and> (of_char c :: nat) \<le> 90) \<or>
     (97 \<le> (of_char c :: nat) \<and> (of_char c :: nat) \<le> 122)"

definition aliases_of :: "dict \<Rightarrow> json list" where
  "aliases_of d = (case map_of d ''aliases'' of Some (JList al) \<Rightarrow> al | _ \<Rightarrow> [])"

definition aliases_ok :: "dict \<Rightarrow> bool" where
  "aliases_ok d =
     (case map_of d ''aliases'' of None \<Rightarrow> True | Some (JList _) \<Rightarrow> True | Some _ \<Rightarrow> False)"

definition with_alias :: "dict \<Rightarrow> string \<Rightarrow> dict" where
  "with_alias d a = setitem d ''aliases'' (JList (aliases_of d @ [JStr a]))"

fun collect :: "(py_error + 'a) list \<Rightarrow> py_error + 'a list" where
  "collect [] = Inr []"
| "collect (Inl e # rs) = Inl e"
| "collect (Inr x # rs) = (case collect rs of Inl e \<Rightarrow> Inl e | Inr xs \<Rightarrow> Inr (x # xs))"

text \<open>
  The frame of the traversal. \<open>alias_frame v v'\<close>: the tree \<open>v'\<close> is the tree \<open>v\<close> but for
  aliases. Two dicts have the same keys in the same order, but that the later one may
  have one more entry at its end, \<open>aliases\<close> with a list of one str, when the earlier one
  has no such key (\<open>new_aliases\<close>); under \<open>aliases\<close> the later value is the earlier one, or
  the earlier list with one str appended (\<open>appended\<close>); under any other key the values are
  related in the same way. Two lists are related element by element; any other value is
  unchanged. \<open>without_aliases\<close> removes every \<open>aliases\<close> entry from every dict of a tree.
\<close>

fun new_aliases :: "json \<Rightarrow> bool" where
  "new_aliases (JList [JStr a]) = True"
| "new_aliases _ = False"

fun appended :: "json \<Rightarrow> json \<Rightarrow> bool" where
  "appended (JList xs) (JList ys) =
     (ys = xs \<or> (take (length xs) ys = xs \<and> new_aliases (JList (drop (length xs) ys))))"
| "appended v v' = (v' = v)"

fun alias_frame :: "json \<Rightarrow> json \<Rightarrow> bool"
  and items_frame :: "json list \<Rightarrow> json list \<Rightarrow> bool"
  and dict_frame :: "dict \<Rightarrow> dict \<Rightarrow> bool"
where
  "alias_frame (JDict d) (JDict d') =
     (dict_frame d d' \<and> (length d' = length d \<or> map_of d ''aliases'' = None))"
| "alias_frame (JList xs) (JList ys) = items_frame xs ys"
| "alias_frame v v' = (v' = v)"
| "items_frame [] [] = True"
| "items_frame (x # xs) (y # ys) = (alias_frame x y \<and> items_frame xs ys)"
| "items_frame _ _ = False"
| "dict_frame [] [] = True"
| "dict_frame [] [(k', v')] = (k' = ''aliases'' \<and> new_aliases v')"
| "dict_frame ((k, v) # r) ((k', v') # r') =
     (k' = k \<and> (if k = ''aliases'' then appended v v' else alias_frame v v') \<and> dict_frame r r')"
| "dict_frame _ _ = False"

fun without_aliases :: "json \<Rightarrow> json"
  and without_aliases_list :: "json list \<Rightarrow> json list"
  and without_aliases_dict :: "dict \<Rightarrow> dict"
where
  "without_aliases (JDict d) = JDict (without_aliases_dict d)"
| "without_aliases (JList xs) = JList (without_aliases_list xs)"
| "without_aliases v = v"
| "without_aliases_list [] = []"
| "without_aliases_list (x # xs) = without_aliases x # without_aliases_list xs"
| "without_aliases_dict [] = []"
| "without_aliases_dict ((k, v) # r) =
     (if k = ''aliases'' then without_aliases_dict r
      else (k, without_aliases v) # without_aliases_dict r)"

text \<open>
  The nodes the traversal reaches, in the order in which it reaches them, when nothing
  raises: \<open>visit_schema\<close> follows \<open>traverse_schema\<close>, \<open>visit_type\<close> follows
  \<open>_traverse_type\<close>. A \<open>RecordNode\<close> is a dict whose \<open>type\<close> is \<open>"record"\<close>; a \<open>FieldNode\<close>
  is an element of the \<open>fields\<close> list of such a dict. The type of a field is followed
  when the field is a dict with a \<open>type\<close>; the members of a union are followed when they
  are dicts; nothing else is followed (not the values of a map, not a union inside a
  union).
\<close>

datatype node = RecordNode dict | FieldNode json

function visit_schema :: "json \<Rightarrow> node list"
  and visit_fields :: "json list \<Rightarrow> node list"
  and visit_type :: "json \<Rightarrow> node list"
  and visit_union :: "json list \<Rightarrow> node list"
where
  "visit_schema schema =
     (case schema of
        JDict d \<Rightarrow>
          (if dict_get d ''type'' JNull = JStr ''record'' then
             RecordNode d #
               (case map_of d ''fields'' of Some (JList fs) \<Rightarrow> visit_fields fs | _ \<Rightarrow> [])
           else if dict_get d ''type'' JNull = JStr ''array'' then
             visit_type (dict_get d ''items'' JNull)
           else [])
      | _ \<Rightarrow> [])"
| "visit_fields [] = []"
| "visit_fields (field # rest) =
     FieldNode field #
       (case field of
          JDict fd \<Rightarrow> (case map_of fd ''type'' of Some t \<Rightarrow> visit_type t | None \<Rightarrow> [])
        | _ \<Rightarrow> []) @
       visit_fields rest"
| "visit_type type_obj =
     (if is_dict type_obj then visit_schema type_obj
      else (case type_obj of JList ts \<Rightarrow> visit_union ts | _ \<Rightarrow> []))"
| "visit_union [] = []"
| "visit_union (t # rest) = (if is_dict t then visit_schema t else []) @ visit_union rest"
  by pat_completeness auto

termination
  apply (relation "measure (\<lambda>x. case x of
       Inl (Inl s) \<Rightarrow> 2 * size s + 1
     | Inl (Inr fs) \<Rightarrow> 2 * size_list size fs
     | Inr (Inl t) \<Rightarrow> 2 * size t + 2
     | Inr (Inr ts) \<Rightarrow> 2 * size_list size ts + 1)")
  apply simp_all
  subgoal by (drule size_map_of) simp
  subgoal for schema d by (use size_dict_get [of d "''items''" JNull] in simp)
  subgoal by (drule size_map_of) simp
  done

declare visit_schema.simps [simp del] visit_type.simps [simp del]

text \<open>
  The shapes of the data model, on one node: \<open>name\<close> is absent or a str (\<open>name_ok\<close>),
  \<open>aliases\<close> is absent or a list (\<open>aliases_ok\<close>), \<open>fields\<close> is absent or a list
  (\<open>fields_ok\<close>), and a field is a dict. \<open>lacks k\<close>: the node is a field, a dict, and has no
  key \<open>k\<close>. \<open>incomplete\<close>: the field lacks one of its two required keys.
  \<open>outcome_ok ns r\<close>: the result \<open>r\<close> is a \<open>KeyError\<close> when one of the nodes \<open>ns\<close> is
  incomplete, and a returned value when none is.
\<close>

definition name_ok :: "dict \<Rightarrow> bool" where
  "name_ok d =
     (case map_of d ''name'' of None \<Rightarrow> True | Some (JStr _) \<Rightarrow> True | Some _ \<Rightarrow> False)"

definition fields_ok :: "dict \<Rightarrow> bool" where
  "fields_ok d =
     (case map_of d ''fields'' of None \<Rightarrow> True | Some (JList _) \<Rightarrow> True | Some _ \<Rightarrow> False)"

fun node_ok :: "node \<Rightarrow> bool" where
  "node_ok (RecordNode d) = (name_ok d \<and> aliases_ok d \<and> fields_ok d)"
| "node_ok (FieldNode (JDict fd)) = (name_ok fd \<and> aliases_ok fd)"
| "node_ok (FieldNode _) = False"

fun lacks :: "string \<Rightarrow> node \<Rightarrow> bool" where
  "lacks k (FieldNode (JDict fd)) = (map_of fd k = None)"
| "lacks k _ = False"

definition incomplete :: "node \<Rightarrow> bool" where
  "incomplete n \<longleftrightarrow> lacks ''name'' n \<or> lacks ''type'' n"

definition raises_KeyError :: "py_error + 'a \<Rightarrow> bool" where
  "raises_KeyError r = (case r of Inl (KeyError _) \<Rightarrow> True | _ \<Rightarrow> False)"

definition returns :: "py_error + 'a \<Rightarrow> bool" where
  "returns r = (case r of Inr _ \<Rightarrow> True | Inl _ \<Rightarrow> False)"

definition outcome_ok :: "node list \<Rightarrow> py_error + 'a \<Rightarrow> bool" where
  "outcome_ok ns r = (if list_ex incomplete ns then raises_KeyError r else returns r)"

text \<open>
  What one run adds. \<open>node_aliases\<close>: the entries of the node's \<open>aliases\<close> list.
  \<open>node_alias p\<close>: the entries a run with the prefix \<open>p\<close> appends to the node, namely the
  one alias derived from its name (from the name without the prefix for a record), and
  nothing for a node without a str name. \<open>named\<close>: the node is a field, or a record with
  a \<open>name\<close> key. \<open>grows p n n'\<close>: the node \<open>n'\<close> has the aliases of \<open>n\<close> followed by what a
  run appends to \<open>n\<close>, a run appends the same to both, and that is exactly one entry when
  \<open>n\<close> is named.
\<close>

fun node_aliases :: "node \<Rightarrow> json list" where
  "node_aliases (RecordNode d) = aliases_of d"
| "node_aliases (FieldNode (JDict fd)) = aliases_of fd"
| "node_aliases (FieldNode _) = []"

fun node_alias :: "string \<Rightarrow> node \<Rightarrow> json list" where
  "node_alias p (RecordNode d) =
     (case map_of d ''name'' of
        Some (JStr n) \<Rightarrow> [JStr (to_snake_case (removeprefix n p))]
      | _ \<Rightarrow> [])"
| "node_alias p (FieldNode (JDict fd)) =
     (case map_of fd ''name'' of Some (JStr n) \<Rightarrow> [JStr (to_snake_case n)] | _ \<Rightarrow> [])"
| "node_alias p (FieldNode _) = []"

fun named :: "node \<Rightarrow> bool" where
  "named (RecordNode d) = (map_of d ''name'' \<noteq> None)"
| "named (FieldNode _) = True"

definition grows :: "string \<Rightarrow> node \<Rightarrow> node \<Rightarrow> bool" where
  "grows p n n' \<longleftrightarrow>
     node_aliases n' = node_aliases n @ node_alias p n \<and>
     node_alias p n' = node_alias p n \<and>
     named n' = named n \<and>
     (named n \<longrightarrow> length (node_alias p n) = 1)"

section \<open>The Name Caser\<close>

lemma lower_char_not_upper: "\<not> isupper (lower_char c)"
  by (auto simp: lower_char_def isupper_def)

lemma ascii_upper_isupper: "ascii_upper c \<Longrightarrow> isupper c"
  by (simp add: ascii_upper_def isupper_def)

lemma lower_char_idem: "lower_char (lower_char c) = lower_char c"
  using lower_char_not_upper [of c] by (simp add: lower_char_def [of "lower_char c"])

lemma sub_tail_no_upper: "\<forall>c\<in>set s. \<not> ascii_upper c \<Longrightarrow> sub_tail s = s"
  by (induction s) auto

lemma re_sub_no_upper: "\<forall>c\<in>set s. \<not> ascii_upper c \<Longrightarrow> re_sub s = s"
  by (cases s) (auto simp: sub_tail_no_upper)

lemma lower_no_upper: "\<forall>c\<in>set (lower s). \<not> isupper c"
  by (simp add: lower_def lower_char_not_upper)

lemma lower_idem: "lower (lower s) = lower s"
  by (simp add: lower_def lower_char_idem)

text \<open>
  C10. \<open>to_snake_case\<close> is idempotent on every string: its result holds no capital
  letter, so a second pass inserts no underscore and lowers nothing.
\<close>

theorem to_snake_case_idempotent: "to_snake_case (to_snake_case s) = to_snake_case s"
proof -
  have "\<forall>c\<in>set (to_snake_case s). \<not> ascii_upper c"
    unfolding to_snake_case_def using lower_no_upper ascii_upper_isupper by blast
  then have "re_sub (to_snake_case s) = to_snake_case s"
    by (rule re_sub_no_upper)
  then show ?thesis
    by (simp add: to_snake_case_def lower_idem)
qed

lemma to_snake_case_Nil: "to_snake_case [] = []"
  by (simp add: to_snake_case_def lower_def)

lemma lower_char_underscore: "lower_char c = CHR ''_'' \<longleftrightarrow> c = CHR ''_''"
proof
  assume h: "lower_char c = CHR ''_''"
  show "c = CHR ''_''"
  proof (cases "isupper c")
    case True
    with h have "char_of ((of_char c :: nat) + 32) = CHR ''_''"
      by (simp add: lower_char_def)
    then have "(of_char (char_of ((of_char c :: nat) + 32) :: char) :: nat) = of_char CHR ''_''"
      by simp
    with True show ?thesis by (auto simp: isupper_def)
  next
    case False
    with h show ?thesis by (simp add: lower_char_def)
  qed
next
  assume "c = CHR ''_''"
  then show "lower_char c = CHR ''_''" by (simp add: lower_char_def isupper_def)
qed

lemma count_lower_underscore: "count_list (lower s) CHR ''_'' = count_list s CHR ''_''"
  by (induction s) (auto simp: lower_def lower_char_underscore)

lemma ascii_upper_not_underscore: "ascii_upper c \<Longrightarrow> c \<noteq> CHR ''_''"
  by (auto simp: ascii_upper_def)

lemma count_sub_tail:
  "count_list (sub_tail s) CHR ''_'' = count_list s CHR ''_'' + length (filter ascii_upper s)"
  by (induction s) (auto simp: ascii_upper_not_underscore)

lemma count_re_sub:
  "count_list (re_sub s) CHR ''_'' = count_list s CHR ''_'' + length (filter ascii_upper (tl s))"
  by (cases s) (simp_all add: count_sub_tail)

text \<open>
  On any string, the result has one underscore more for each \<open>[A-Z]\<close> character that is not
  the first one.
\<close>

lemma count_to_snake_case:
  "count_list (to_snake_case s) CHR ''_'' =
     count_list s CHR ''_'' + length (filter ascii_upper (tl s))"
  by (simp add: to_snake_case_def count_lower_underscore count_re_sub)

lemma ident_char_upper: "ident_char c \<Longrightarrow> isupper c = ascii_upper c"
  by (auto simp: ident_char_def isupper_def ascii_upper_def)

lemma ident_char_not_underscore: "ident_char c \<Longrightarrow> c \<noteq> CHR ''_''"
  by (auto simp: ident_char_def)

lemma ident_no_underscore: "list_all ident_char s \<Longrightarrow> count_list s CHR ''_'' = 0"
  by (induction s) (auto simp: ident_char_not_underscore)

lemma ident_filter_upper: "list_all ident_char s \<Longrightarrow> filter isupper s = filter ascii_upper s"
  by (induction s) (auto simp: ident_char_upper)

lemma list_all_tl: "list_all P s \<Longrightarrow> list_all P (tl s)"
  by (cases s) auto

lemma filter_all: "list_all P s \<Longrightarrow> filter P s = s"
  by (induction s) auto

text \<open>
  C5. For an identifier \<open>s\<close> of letters and digits (the ASCII letters and digits of Avro
  names), \<open>to_snake_case s\<close> holds as many underscores as \<open>s\<close> has capital letters at the
  positions other than 0, and no capital letter; when every character of \<open>s\<close> is a
  capital, that is \<open>length s - 1\<close> underscores.
\<close>

theorem to_snake_case_separators:
  assumes "list_all ident_char s"
  shows "count_list (to_snake_case s) CHR ''_'' = length (filter isupper (tl s)) \<and>
         list_all (\<lambda>c. \<not> isupper c) (to_snake_case s) \<and>
         (list_all isupper s \<longrightarrow> count_list (to_snake_case s) CHR ''_'' = length s - 1)"
proof -
  have tl_ident: "list_all ident_char (tl s)" using assms by (rule list_all_tl)
  have count: "count_list (to_snake_case s) CHR ''_'' = length (filter isupper (tl s))"
    using ident_no_underscore [OF assms] ident_filter_upper [OF tl_ident]
    by (simp add: count_to_snake_case)
  have low: "list_all (\<lambda>c. \<not> isupper c) (to_snake_case s)"
    using lower_no_upper [of "re_sub s"] by (simp add: to_snake_case_def list_all_iff)
  have caps: "count_list (to_snake_case s) CHR ''_'' = length s - 1" if "list_all isupper s"
    using count filter_all [OF list_all_tl [OF that]] by simp
  from count low caps show ?thesis by blast
qed

theorem to_snake_case_separators_witness:
  "list_all ident_char ''HTTPServer2'' \<and>
   to_snake_case ''HTTPServer2'' = ''h_t_t_p_server2'' \<and>
   count_list (to_snake_case ''HTTPServer2'') CHR ''_'' = 4 \<and>
   length (filter isupper (tl ''HTTPServer2'')) = 4 \<and>
   list_all (\<lambda>c. \<not> isupper c) (to_snake_case ''HTTPServer2'') \<and>
   list_all ident_char ''HTTP'' \<and> list_all isupper ''HTTP'' \<and>
   count_list (to_snake_case ''HTTP'') CHR ''_'' = 3"
proof -
  have a: "list_all ident_char ''HTTPServer2''" by (simp add: ident_char_def)
  have b: "list_all ident_char ''HTTP''" by (simp add: ident_char_def)
  have c: "list_all isupper ''HTTP''" by (simp add: isupper_def)
  have d: "length (filter isupper (tl ''HTTPServer2'')) = 4" by (simp add: isupper_def)
  have e: "to_snake_case ''HTTPServer2'' = ''h_t_t_p_server2''" by code_simp
  from to_snake_case_separators [OF a] to_snake_case_separators [OF b] a b c d e
  show ?thesis by simp
qed

section \<open>The alias adders\<close>

lemma setitem_same: "map_of d k = Some v \<Longrightarrow> setitem d k v = d"
  by (induction d k v rule: setitem.induct) (auto split: if_splits)

lemma setitem_new: "map_of d k = None \<Longrightarrow> setitem d k v = d @ [(k, v)]"
  by (induction d k v rule: setitem.induct) (auto split: if_splits)

lemma startswith_append: "startswith (p @ r) p"
  by (induction p) auto

lemma startswith_iff: "startswith s p \<longleftrightarrow> (\<exists>r. s = p @ r)"
  by (induction s p rule: startswith.induct) auto

lemma removeprefix_append: "removeprefix (p @ r) p = r"
  by (simp add: removeprefix_def startswith_append)

lemma removeprefix_other: "\<not> (\<exists>r. s = p @ r) \<Longrightarrow> removeprefix s p = s"
  by (simp add: removeprefix_def startswith_iff)

lemma removeprefix_self: "removeprefix p p = []"
  using removeprefix_append [of p "[]"] by simp

lemma add_alias_to_record_named:
  "map_of d ''name'' = Some (JStr n) \<Longrightarrow> aliases_ok d \<Longrightarrow>
     add_alias_to_record d p = Inr (with_alias d (to_snake_case (removeprefix n p)))"
  by (auto simp: add_alias_to_record_def with_alias_def aliases_of_def aliases_ok_def
      split: option.splits json.splits)

lemma add_alias_to_record_unnamed:
  "map_of d ''name'' = None \<Longrightarrow> add_alias_to_record d p = Inr d"
  by (simp add: add_alias_to_record_def)

lemma add_alias_to_field_named:
  "map_of d ''name'' = Some (JStr n) \<Longrightarrow> aliases_ok d \<Longrightarrow>
     add_alias_to_field (JDict d) = Inr (with_alias d (to_snake_case n))"
  by (auto simp: add_alias_to_field_def with_alias_def aliases_of_def aliases_ok_def
      split: option.splits json.splits)

lemma map_of_with_alias:
  "map_of (with_alias d a) k =
     (if k = ''aliases'' then Some (JList (aliases_of d @ [JStr a])) else map_of d k)"
  by (simp add: with_alias_def map_of_setitem)

lemma traverse_type_prim: "traverse_type (JStr t) p = Inr (JStr t)"
  by (simp add: traverse_type.simps)

lemma traverse_fields_prim:
  assumes "map_of d ''name'' = Some (JStr n)" and "aliases_ok d"
    and "map_of d ''type'' = Some (JStr t)"
  shows "traverse_fields [JDict d] p = Inr [JDict (with_alias d (to_snake_case n))]"
proof -
  let ?d1 = "with_alias d (to_snake_case n)"
  have ty: "map_of ?d1 ''type'' = Some (JStr t)"
    using assms(3) by (simp add: map_of_with_alias)
  then have "getitem ?d1 ''type'' = Inr (JStr t)" by (simp add: getitem_def)
  with add_alias_to_field_named [OF assms(1,2)] setitem_same [OF ty] show ?thesis
    by (simp add: traverse_type_prim)
qed

text \<open>
  C4. On a node \<open>d\<close> with the name \<open>n\<close> (and an \<open>aliases\<close> that is absent or a list),
  \<open>add_alias_to_record\<close> appends the snake case of \<open>n\<close> without the prefix, whereas
  \<open>add_alias_to_field\<close>, and so the traversal of \<open>d\<close> as a field, appends the snake case
  of the whole of \<open>n\<close> whatever the prefix is. The prefix is removed only when the name
  starts with exactly the prefix: \<open>p @ r\<close> becomes \<open>r\<close>, a name that is not of this form is
  left as it is. \<open>UserOrderCreatedEvent\<close> with the prefix \<open>User\<close> gives
  \<open>order_created_event\<close>.
\<close>

theorem prefix_stripping_records_only:
  assumes "map_of d ''name'' = Some (JStr n)" and "aliases_ok d"
  shows "add_alias_to_record d p = Inr (with_alias d (to_snake_case (removeprefix n p))) \<and>
         add_alias_to_field (JDict d) = Inr (with_alias d (to_snake_case n)) \<and>
         (map_of d ''type'' = Some (JStr t) \<longrightarrow>
            traverse_fields [JDict d] p = Inr [JDict (with_alias d (to_snake_case n))]) \<and>
         removeprefix (p @ r) p = r \<and>
         ((\<nexists>r'. n = p @ r') \<longrightarrow> removeprefix n p = n) \<and>
         to_snake_case (removeprefix ''UserOrderCreatedEvent'' ''User'') =
           ''order_created_event''"
proof -
  have ex: "to_snake_case (removeprefix ''UserOrderCreatedEvent'' ''User'') =
      ''order_created_event''"
    by code_simp
  show ?thesis
    using add_alias_to_record_named [OF assms] add_alias_to_field_named [OF assms]
      traverse_fields_prim [OF assms] removeprefix_append removeprefix_other ex
    by blast
qed

theorem prefix_stripping_records_only_witness:
  "map_of [(''type'', JStr ''record''), (''name'', JStr ''UserOrderCreatedEvent'')] ''name'' =
     Some (JStr ''UserOrderCreatedEvent'') \<and>
   aliases_ok [(''type'', JStr ''record''), (''name'', JStr ''UserOrderCreatedEvent'')] \<and>
   add_alias_to_record
     [(''type'', JStr ''record''), (''name'', JStr ''UserOrderCreatedEvent'')] ''User'' =
     Inr [(''type'', JStr ''record''), (''name'', JStr ''UserOrderCreatedEvent''),
          (''aliases'', JList [JStr ''order_created_event''])] \<and>
   map_of [(''name'', JStr ''UserId''), (''type'', JStr ''string'')] ''name'' =
     Some (JStr ''UserId'') \<and>
   aliases_ok [(''name'', JStr ''UserId''), (''type'', JStr ''string'')] \<and>
   map_of [(''name'', JStr ''UserId''), (''type'', JStr ''string'')] ''type'' =
     Some (JStr ''string'') \<and>
   traverse_fields [JDict [(''name'', JStr ''UserId''), (''type'', JStr ''string'')]] ''User'' =
     Inr [JDict [(''name'', JStr ''UserId''), (''type'', JStr ''string''),
                 (''aliases'', JList [JStr ''user_id''])]] \<and>
   removeprefix ''UserOrder'' ''user'' = ''UserOrder''"
proof -
  let ?d = "[(''type'', JStr ''record''), (''name'', JStr ''UserOrderCreatedEvent'')]"
  let ?f = "[(''name'', JStr ''UserId''), (''type'', JStr ''string'')]"
  have n: "map_of ?d ''name'' = Some (JStr ''UserOrderCreatedEvent'')" by simp
  have a: "aliases_ok ?d" by (simp add: aliases_ok_def)
  have r: "with_alias ?d (to_snake_case (removeprefix ''UserOrderCreatedEvent'' ''User'')) =
      [(''type'', JStr ''record''), (''name'', JStr ''UserOrderCreatedEvent''),
       (''aliases'', JList [JStr ''order_created_event''])]"
    by code_simp
  have fn: "map_of ?f ''name'' = Some (JStr ''UserId'')" by simp
  have fa: "aliases_ok ?f" by (simp add: aliases_ok_def)
  have ft: "map_of ?f ''type'' = Some (JStr ''string'')" by simp
  have fr: "with_alias ?f (to_snake_case ''UserId'') =
      [(''name'', JStr ''UserId''), (''type'', JStr ''string''),
       (''aliases'', JList [JStr ''user_id''])]"
    by code_simp
  have np: "\<nexists>r'. ''UserOrder'' = ''user'' @ r'" by simp
  have nn: "map_of [(''name'', JStr ''UserOrder'')] ''name'' = Some (JStr ''UserOrder'')"
    by simp
  have na: "aliases_ok [(''name'', JStr ''UserOrder'')]" by (simp add: aliases_ok_def)
  note rec = prefix_stripping_records_only [OF n a, of "''User''" "''string''" "[]"]
  note fld = prefix_stripping_records_only [OF fn fa, of "''User''" "''string''" "[]"]
  note oth = prefix_stripping_records_only [OF nn na, of "''user''" "''string''" "[]"]
  from rec have "add_alias_to_record ?d ''User'' =
      Inr (with_alias ?d (to_snake_case (removeprefix ''UserOrderCreatedEvent'' ''User'')))"
    by (rule conjunct1)
  then have 1: "add_alias_to_record ?d ''User'' =
      Inr [(''type'', JStr ''record''), (''name'', JStr ''UserOrderCreatedEvent''),
           (''aliases'', JList [JStr ''order_created_event''])]"
    by (simp only: r)
  from fld ft have "traverse_fields [JDict ?f] ''User'' =
      Inr [JDict (with_alias ?f (to_snake_case ''UserId''))]"
    by blast
  then have 2: "traverse_fields [JDict ?f] ''User'' =
      Inr [JDict [(''name'', JStr ''UserId''), (''type'', JStr ''string''),
                  (''aliases'', JList [JStr ''user_id''])]]"
    by (simp only: fr)
  from oth np have 3: "removeprefix ''UserOrder'' ''user'' = ''UserOrder''"
    by blast
  from n a 1 fn fa ft 2 3 show ?thesis by blast
qed

text \<open>
  C9. On a record node whose name is the prefix itself (and whose \<open>aliases\<close> is absent or
  a list), \<open>add_alias_to_record\<close> raises nothing and appends the empty string: the
  \<open>aliases\<close> list of the result is the old one followed by \<open>""\<close>.
\<close>

theorem name_equal_to_prefix:
  assumes "map_of d ''name'' = Some (JStr p)" and "aliases_ok d"
  shows "\<exists>d'. add_alias_to_record d p = Inr d' \<and>
           map_of d' ''aliases'' = Some (JList (aliases_of d @ [JStr '''']))"
  using add_alias_to_record_named [OF assms, of p]
  by (simp add: removeprefix_self to_snake_case_Nil map_of_with_alias)

theorem name_equal_to_prefix_witness:
  "map_of [(''type'', JStr ''record''), (''name'', JStr ''User''),
           (''aliases'', JList [JStr ''old''])] ''name'' = Some (JStr ''User'') \<and>
   aliases_ok [(''type'', JStr ''record''), (''name'', JStr ''User''),
               (''aliases'', JList [JStr ''old''])] \<and>
   add_alias_to_record [(''type'', JStr ''record''), (''name'', JStr ''User''),
                        (''aliases'', JList [JStr ''old''])] ''User'' =
     Inr [(''type'', JStr ''record''), (''name'', JStr ''User''),
          (''aliases'', JList [JStr ''old'', JStr ''''])]"
proof -
  let ?d = "[(''type'', JStr ''record''), (''name'', JStr ''User''),
             (''aliases'', JList [JStr ''old''])]"
  have n: "map_of ?d ''name'' = Some (JStr ''User'')" by simp
  have a: "aliases_ok ?d" by (simp add: aliases_ok_def)
  have r: "add_alias_to_record ?d ''User'' =
      Inr [(''type'', JStr ''record''), (''name'', JStr ''User''),
           (''aliases'', JList [JStr ''old'', JStr ''''])]"
    by code_simp
  from name_equal_to_prefix [OF n a] n a r show ?thesis by simp
qed

section \<open>The traversal on single nodes\<close>

lemma traverse_schema_no_fields:
  assumes "map_of d ''type'' = Some (JStr ''record'')" and "map_of d ''fields'' = None"
  shows "traverse_schema (JDict d) p =
           (case add_alias_to_record d p of Inl e \<Rightarrow> Inl e | Inr d1 \<Rightarrow> Inr (JDict d1))"
proof (cases "add_alias_to_record d p")
  case (Inl e)
  with assms(1) show ?thesis by (simp add: traverse_schema.simps dict_get_def)
next
  case (Inr d1)
  then have "map_of d1 ''fields'' = None"
    using assms(2) by (simp add: add_alias_to_record_other)
  with Inr assms(1) show ?thesis by (simp add: traverse_schema.simps dict_get_def)
qed

text \<open>
  C8. On a node with \<open>type\<close> \<open>"record"\<close> and no \<open>fields\<close> key (its \<open>aliases\<close> absent or a
  list), the traversal raises nothing and does what \<open>add_alias_to_record\<close> does, and
  nothing more: with a name \<open>n\<close> the result is the node with the one alias appended, without a
  name it is the node itself.
\<close>

theorem record_without_fields:
  assumes "map_of d ''type'' = Some (JStr ''record'')" and "map_of d ''fields'' = None"
    and "aliases_ok d"
  shows "(map_of d ''name'' = Some (JStr n) \<longrightarrow>
            traverse_schema (JDict d) p =
              Inr (JDict (with_alias d (to_snake_case (removeprefix n p))))) \<and>
         (map_of d ''name'' = None \<longrightarrow> traverse_schema (JDict d) p = Inr (JDict d))"
  using traverse_schema_no_fields [OF assms(1,2), of p] assms(3)
  by (auto simp: add_alias_to_record_named add_alias_to_record_unnamed)

theorem record_without_fields_witness:
  "map_of [(''type'', JStr ''record''), (''name'', JStr ''UserOrder'')] ''type'' =
     Some (JStr ''record'') \<and>
   map_of [(''type'', JStr ''record''), (''name'', JStr ''UserOrder'')] ''fields'' = None \<and>
   aliases_ok [(''type'', JStr ''record''), (''name'', JStr ''UserOrder'')] \<and>
   map_of [(''type'', JStr ''record''), (''name'', JStr ''UserOrder'')] ''name'' =
     Some (JStr ''UserOrder'') \<and>
   traverse_schema (JDict [(''type'', JStr ''record''), (''name'', JStr ''UserOrder'')]) ''User'' =
     Inr (JDict [(''type'', JStr ''record''), (''name'', JStr ''UserOrder''),
                 (''aliases'', JList [JStr ''order''])])"
proof -
  let ?d = "[(''type'', JStr ''record''), (''name'', JStr ''UserOrder'')]"
  have t: "map_of ?d ''type'' = Some (JStr ''record'')" by simp
  have f: "map_of ?d ''fields'' = None" by simp
  have a: "aliases_ok ?d" by (simp add: aliases_ok_def)
  have n: "map_of ?d ''name'' = Some (JStr ''UserOrder'')" by simp
  have r: "with_alias ?d (to_snake_case (removeprefix ''UserOrder'' ''User'')) =
      [(''type'', JStr ''record''), (''name'', JStr ''UserOrder''),
       (''aliases'', JList [JStr ''order''])]"
    by code_simp
  from record_without_fields [OF t f a, of "''UserOrder''" "''User''"] n
  have "traverse_schema (JDict ?d) ''User'' =
      Inr (JDict (with_alias ?d (to_snake_case (removeprefix ''UserOrder'' ''User''))))"
    by blast
  then have "traverse_schema (JDict ?d) ''User'' =
      Inr (JDict [(''type'', JStr ''record''), (''name'', JStr ''UserOrder''),
                  (''aliases'', JList [JStr ''order''])])"
    by (simp only: r)
  with t f a n show ?thesis by blast
qed

lemma traverse_union_collect:
  "traverse_union ts p =
     collect (map (\<lambda>t. if is_dict t then traverse_schema t p else Inr t) ts)"
  by (induction ts) (auto split: sum.splits)

lemma traverse_union_prims:
  "list_all (\<lambda>t. \<not> is_dict t) ts \<Longrightarrow> traverse_union ts p = Inr ts"
  by (induction ts) auto

lemma traverse_type_list:
  "traverse_type (JList ts) p =
     (case traverse_union ts p of Inl e \<Rightarrow> Inl e | Inr ts' \<Rightarrow> Inr (JList ts'))"
  by (simp add: traverse_type.simps)

lemma traverse_fields_union_prims:
  assumes "map_of d ''name'' = Some (JStr n)" and "aliases_ok d"
    and "map_of d ''type'' = Some (JList ts)" and "list_all (\<lambda>t. \<not> is_dict t) ts"
  shows "traverse_fields [JDict d] p = Inr [JDict (with_alias d (to_snake_case n))]"
proof -
  let ?d1 = "with_alias d (to_snake_case n)"
  have ty: "map_of ?d1 ''type'' = Some (JList ts)"
    using assms(3) by (simp add: map_of_with_alias)
  then have "getitem ?d1 ''type'' = Inr (JList ts)" by (simp add: getitem_def)
  moreover have "traverse_type (JList ts) p = Inr (JList ts)"
    by (simp add: traverse_type_list traverse_union_prims [OF assms(4)])
  ultimately show ?thesis
    using add_alias_to_field_named [OF assms(1,2)] setitem_same [OF ty] by simp
qed

text \<open>
  C6. On a union \<open>ts\<close>, \<open>_traverse_type\<close> goes through the members in order: a member that is
  a dict is given to \<open>traverse_schema\<close>, any other member is kept as it is, and the first
  exception ends the loop. So a union without a dict member comes back unchanged, and a
  field whose type is such a union (as \<open>["null", "string"]\<close>) gets its own alias and nothing
  else.
\<close>

theorem union_members:
  "traverse_type (JList ts) p =
     (case collect (map (\<lambda>t. if is_dict t then traverse_schema t p else Inr t) ts) of
        Inl e \<Rightarrow> Inl e
      | Inr ts' \<Rightarrow> Inr (JList ts')) \<and>
   (list_all (\<lambda>t. \<not> is_dict t) ts \<longrightarrow> traverse_type (JList ts) p = Inr (JList ts)) \<and>
   (list_all (\<lambda>t. \<not> is_dict t) ts \<longrightarrow> map_of d ''name'' = Some (JStr n) \<longrightarrow> aliases_ok d \<longrightarrow>
    map_of d ''type'' = Some (JList ts) \<longrightarrow>
      traverse_fields [JDict d] p = Inr [JDict (with_alias d (to_snake_case n))])"
  using traverse_fields_union_prims [of d n ts p]
  by (simp add: traverse_type_list traverse_union_collect [symmetric] traverse_union_prims)

theorem union_members_witness:
  "list_all (\<lambda>t. \<not> is_dict t) [JStr ''null'', JStr ''string''] \<and>
   traverse_type (JList [JStr ''null'', JStr ''string'']) ''User'' =
     Inr (JList [JStr ''null'', JStr ''string'']) \<and>
   map_of [(''name'', JStr ''nickName''), (''type'', JList [JStr ''null'', JStr ''string''])]
     ''name'' = Some (JStr ''nickName'') \<and>
   aliases_ok [(''name'', JStr ''nickName''), (''type'', JList [JStr ''null'', JStr ''string''])] \<and>
   map_of [(''name'', JStr ''nickName''), (''type'', JList [JStr ''null'', JStr ''string''])]
     ''type'' = Some (JList [JStr ''null'', JStr ''string'']) \<and>
   traverse_fields
     [JDict [(''name'', JStr ''nickName''), (''type'', JList [JStr ''null'', JStr ''string''])]]
     ''User'' =
     Inr [JDict [(''name'', JStr ''nickName''), (''type'', JList [JStr ''null'', JStr ''string'']),
                 (''aliases'', JList [JStr ''nick_name''])]] \<and>
   traverse_type
     (JList [JStr ''null'', JDict [(''type'', JStr ''record''), (''name'', JStr ''UserTag'')]])
     ''User'' =
     Inr (JList [JStr ''null'', JDict [(''type'', JStr ''record''), (''name'', JStr ''UserTag''),
                                      (''aliases'', JList [JStr ''tag''])]])"
proof -
  let ?ts = "[JStr ''null'', JStr ''string'']"
  let ?d = "[(''name'', JStr ''nickName''), (''type'', JList ?ts)]"
  let ?us = "[JStr ''null'', JDict [(''type'', JStr ''record''), (''name'', JStr ''UserTag'')]]"
  have p: "list_all (\<lambda>t. \<not> is_dict t) ?ts" by simp
  have n: "map_of ?d ''name'' = Some (JStr ''nickName'')" by simp
  have a: "aliases_ok ?d" by (simp add: aliases_ok_def)
  have t: "map_of ?d ''type'' = Some (JList ?ts)" by simp
  have r: "with_alias ?d (to_snake_case ''nickName'') =
      [(''name'', JStr ''nickName''), (''type'', JList ?ts),
       (''aliases'', JList [JStr ''nick_name''])]"
    by code_simp
  have c: "(case collect (map (\<lambda>t. if is_dict t then traverse_schema t ''User'' else Inr t) ?us) of
      Inl e \<Rightarrow> Inl e | Inr ts' \<Rightarrow> Inr (JList ts')) =
      Inr (JList [JStr ''null'', JDict [(''type'', JStr ''record''), (''name'', JStr ''UserTag''),
                                        (''aliases'', JList [JStr ''tag''])]])"
    by code_simp
  note prim = union_members [of ?ts "''User''" ?d "''nickName''"]
  note mixed = union_members [of ?us "''User''" ?d "''nickName''"]
  from prim p have 1: "traverse_type (JList ?ts) ''User'' = Inr (JList ?ts)"
    by blast
  from prim p n a t have "traverse_fields [JDict ?d] ''User'' =
      Inr [JDict (with_alias ?d (to_snake_case ''nickName''))]"
    by blast
  then have 2: "traverse_fields [JDict ?d] ''User'' =
      Inr [JDict [(''name'', JStr ''nickName''), (''type'', JList ?ts),
                  (''aliases'', JList [JStr ''nick_name''])]]"
    by (simp only: r)
  from mixed have "traverse_type (JList ?us) ''User'' =
      (case collect (map (\<lambda>t. if is_dict t then traverse_schema t ''User'' else Inr t) ?us) of
        Inl e \<Rightarrow> Inl e | Inr ts' \<Rightarrow> Inr (JList ts'))"
    by (rule conjunct1)
  then have 3: "traverse_type (JList ?us) ''User'' =
      Inr (JList [JStr ''null'', JDict [(''type'', JStr ''record''), (''name'', JStr ''UserTag''),
                                        (''aliases'', JList [JStr ''tag''])]])"
    by (simp only: c)
  from p 1 n a t 2 3 show ?thesis by blast
qed

text \<open>
  C3. The example of the specification: \<open>UserOrder\<close> with the prefix \<open>User\<close>. Each of the
  two records and of the three fields gets its alias as the last key; nothing else
  changes.
\<close>

theorem example_user_order:
  "add_aliases_to_avro_schema
     (JDict [(''type'', JStr ''record''), (''name'', JStr ''UserOrder''),
       (''fields'', JList
          [JDict [(''name'', JStr ''orderId''), (''type'', JStr ''string'')],
           JDict [(''name'', JStr ''lineItems''),
                  (''type'', JDict [(''type'', JStr ''array''),
                     (''items'', JDict [(''type'', JStr ''record''), (''name'', JStr ''LineItem''),
                        (''fields'', JList [JDict [(''name'', JStr ''skuCode''),
                                                   (''type'', JStr ''string'')]])])])]])])
     ''User'' =
   Inr (JDict [(''type'', JStr ''record''), (''name'', JStr ''UserOrder''),
       (''fields'', JList
          [JDict [(''name'', JStr ''orderId''), (''type'', JStr ''string''),
                  (''aliases'', JList [JStr ''order_id''])],
           JDict [(''name'', JStr ''lineItems''),
                  (''type'', JDict [(''type'', JStr ''array''),
                     (''items'', JDict [(''type'', JStr ''record''), (''name'', JStr ''LineItem''),
                        (''fields'', JList [JDict [(''name'', JStr ''skuCode''),
                                                   (''type'', JStr ''string''),
                                                   (''aliases'', JList [JStr ''sku_code''])]]),
                        (''aliases'', JList [JStr ''line_item''])])]),
                  (''aliases'', JList [JStr ''line_items''])]]),
       (''aliases'', JList [JStr ''order''])])"
  by code_simp

section \<open>The frame of the traversal\<close>

lemma appended_refl: "appended v v"
  by (cases v) auto

lemma appended_one: "appended (JList al) (JList (al @ [JStr a]))"
  by simp

lemma alias_frame_refl: "alias_frame v v"
  and items_frame_refl: "items_frame xs xs"
  and dict_frame_refl: "dict_frame d d"
proof (induction v and xs and d rule: without_aliases_without_aliases_list_without_aliases_dict.induct)
qed (auto simp: appended_refl)

lemma dict_frame_new:
  "dict_frame d (d @ [(''aliases'', JList [JStr a])])"
  by (induction d) (auto simp: alias_frame_refl dict_frame_refl appended_refl)

lemma dict_frame_append:
  "map_of d ''aliases'' = Some (JList al) \<Longrightarrow>
     dict_frame d (setitem d ''aliases'' (JList (al @ [JStr a])))"
  by (induction d) (auto simp: dict_frame_refl alias_frame_refl split: if_splits)

lemma length_setitem: "map_of d k = Some u \<Longrightarrow> length (setitem d k v) = length d"
  by (induction d k v rule: setitem.induct) (auto split: if_splits)

lemma add_alias_to_record_frame:
  assumes "add_alias_to_record d p = Inr d1"
  shows "dict_frame d d1 \<and> (length d1 = length d \<or> map_of d ''aliases'' = None)"
proof (cases "map_of d ''name''")
  case None
  with assms show ?thesis by (simp add: add_alias_to_record_def dict_frame_refl)
next
  case (Some v)
  show ?thesis
  proof (cases "map_of d ''aliases''")
    case None
    with assms Some show ?thesis
      by (auto simp: add_alias_to_record_def setitem_new dict_frame_new split: json.splits)
  next
    case al: (Some w)
    with assms Some show ?thesis
      by (auto simp: add_alias_to_record_def dict_frame_append length_setitem split: json.splits)
  qed
qed

lemma add_alias_to_field_frame:
  assumes "add_alias_to_field f = Inr d1"
  shows "\<exists>d. f = JDict d \<and> dict_frame d d1 \<and>
           (length d1 = length d \<or> map_of d ''aliases'' = None)"
proof -
  from assms obtain d where d: "f = JDict d"
    using add_alias_to_field_other by blast
  show ?thesis
  proof (cases "map_of d ''aliases''")
    case None
    with assms d show ?thesis
      by (auto simp: add_alias_to_field_def setitem_new dict_frame_new
          split: json.splits option.splits)
  next
    case (Some w)
    with assms d show ?thesis
      by (auto simp: add_alias_to_field_def dict_frame_append length_setitem
          split: json.splits option.splits)
  qed
qed

lemma dict_frame_setitem:
  "dict_frame d d1 \<Longrightarrow> k \<noteq> ''aliases'' \<Longrightarrow> map_of d k = Some u \<Longrightarrow> alias_frame u v' \<Longrightarrow>
     dict_frame d (setitem d1 k v')"
proof (induction d arbitrary: d1)
  case Nil
  then show ?case by simp
next
  case (Cons e r)
  obtain k0 v0 where e: "e = (k0, v0)" by (cases e)
  from Cons.prems(1) e obtain k1 v1 r1 where d1: "d1 = (k1, v1) # r1"
    by (cases d1) auto
  with Cons.prems e have k1: "k1 = k0" and r: "dict_frame r r1" by auto
  show ?case
  proof (cases "k0 = k")
    case True
    with Cons.prems e d1 k1 r show ?thesis by auto
  next
    case False
    with Cons.prems e have "map_of r k = Some u" by simp
    from Cons.IH [OF r Cons.prems(2) this Cons.prems(4)] Cons.prems(1) e d1 k1 False
    show ?thesis by auto
  qed
qed

lemma items_frame_Cons_setitem:
  assumes f: "add_alias_to_field field = Inr f1"
    and g: "getitem f1 ''type'' = Inr t"
    and t: "alias_frame t t'"
  shows "alias_frame field (JDict (setitem f1 ''type'' t'))"
proof -
  from add_alias_to_field_frame [OF f] obtain d where d: "field = JDict d"
    and fr: "dict_frame d f1" and len: "length f1 = length d \<or> map_of d ''aliases'' = None"
    by blast
  from g have t1: "map_of f1 ''type'' = Some t"
    by (simp add: getitem_def split: option.splits)
  from add_alias_to_field_other [OF f] d have "map_of f1 ''type'' = map_of d ''type''"
    by simp
  with t1 have t0: "map_of d ''type'' = Some t" by simp
  have "dict_frame d (setitem f1 ''type'' t')"
    using dict_frame_setitem [OF fr _ t0 t] by simp
  with d len length_setitem [OF t1] show ?thesis by simp
qed

lemma record_frame:
  assumes a: "add_alias_to_record d p = Inr d1"
    and f: "map_of d1 ''fields'' = Some (JList fs)"
    and fr: "items_frame fs fs'"
  shows "alias_frame (JDict d) (JDict (setitem d1 ''fields'' (JList fs')))"
proof -
  from add_alias_to_record_frame [OF a] have d1: "dict_frame d d1"
    and len: "length d1 = length d \<or> map_of d ''aliases'' = None" by simp_all
  from add_alias_to_record_other [OF a] f have f0: "map_of d ''fields'' = Some (JList fs)"
    by simp
  have "dict_frame d (setitem d1 ''fields'' (JList fs'))"
    using dict_frame_setitem [OF d1 _ f0] fr by simp
  with len length_setitem [OF f] show ?thesis by simp
qed

lemma array_frame:
  assumes i: "map_of d ''items'' = Some t" and fr: "alias_frame t t'"
  shows "alias_frame (JDict d) (JDict (setitem d ''items'' t'))"
  using dict_frame_setitem [OF dict_frame_refl _ i fr] length_setitem [OF i] by simp

lemma traverse_schema_record:
  assumes "dict_get d ''type'' JNull = JStr ''record''"
  shows "traverse_schema (JDict d) p =
     (case add_alias_to_record d p of
        Inl e \<Rightarrow> Inl e
      | Inr d1 \<Rightarrow>
          (case iter (dict_get d1 ''fields'' (JList [])) of
             Inl e \<Rightarrow> Inl e
           | Inr fs \<Rightarrow>
               (case traverse_fields fs p of
                  Inl e \<Rightarrow> Inl e
                | Inr fs' \<Rightarrow>
                    (case map_of d1 ''fields'' of
                       Some (JList _) \<Rightarrow> Inr (JDict (setitem d1 ''fields'' (JList fs')))
                     | _ \<Rightarrow> Inr (JDict d1)))))"
  using assms by (simp add: traverse_schema.simps Let_def split: sum.splits)

lemma traverse_schema_array:
  assumes "dict_get d ''type'' JNull = JStr ''array''"
  shows "traverse_schema (JDict d) p =
     (case traverse_type (dict_get d ''items'' JNull) p of
        Inl e \<Rightarrow> Inl e
      | Inr items' \<Rightarrow>
          (case map_of d ''items'' of
             Some _ \<Rightarrow> Inr (JDict (setitem d ''items'' items'))
           | None \<Rightarrow> Inr (JDict d)))"
  using assms by (simp add: traverse_schema.simps Let_def split: sum.splits)

lemma traverse_schema_other:
  assumes "dict_get d ''type'' JNull \<noteq> JStr ''record''"
    and "dict_get d ''type'' JNull \<noteq> JStr ''array''"
  shows "traverse_schema (JDict d) p = Inr (JDict d)"
  using assms by (simp add: traverse_schema.simps)

lemma traverse_schema_not_dict:
  "\<not> is_dict schema \<Longrightarrow> traverse_schema schema p = Inl AttributeError"
  by (cases schema) (simp_all add: traverse_schema.simps)

lemma traverse_frame:
  "traverse_schema schema p = Inr s' \<Longrightarrow> alias_frame schema s'"
  "traverse_fields fs p = Inr fs' \<Longrightarrow> items_frame fs fs'"
  "traverse_type t p = Inr t' \<Longrightarrow> alias_frame t t'"
  "traverse_union ts p = Inr ts' \<Longrightarrow> items_frame ts ts'"
proof (induction schema p and fs p and t p and ts p
    arbitrary: s' and fs' and t' and ts'
    rule: traverse_schema_traverse_fields_traverse_type_traverse_union.induct)
  case (1 schema p)
  from "1.prems" obtain d where d: "schema = JDict d"
    using traverse_schema_not_dict [of schema p] by (cases schema) auto
  consider (rec) "dict_get d ''type'' JNull = JStr ''record''"
    | (arr) "dict_get d ''type'' JNull \<noteq> JStr ''record''"
        "dict_get d ''type'' JNull = JStr ''array''"
    | (other) "dict_get d ''type'' JNull \<noteq> JStr ''record''"
        "dict_get d ''type'' JNull \<noteq> JStr ''array''"
    by blast
  then show ?case
  proof cases
    case rec
    from "1.prems" d obtain d1 fs fs1 where a: "add_alias_to_record d p = Inr d1"
      and it: "iter (dict_get d1 ''fields'' (JList [])) = Inr fs"
      and tf: "traverse_fields fs p = Inr fs1"
      and res: "s' = (case map_of d1 ''fields'' of
                       Some (JList _) \<Rightarrow> JDict (setitem d1 ''fields'' (JList fs1))
                     | _ \<Rightarrow> JDict d1)"
      by (auto simp: traverse_schema_record [OF rec] split: sum.splits option.splits json.splits)
    have ih: "items_frame fs fs1"
      using "1.IH"(1) [OF d refl rec a refl it tf] .
    show ?thesis
    proof (cases "\<exists>xs. map_of d1 ''fields'' = Some (JList xs)")
      case True
      then obtain xs where xs: "map_of d1 ''fields'' = Some (JList xs)" by blast
      with it have "fs = xs" by (simp add: dict_get_def)
      with xs res ih d record_frame [OF a xs, of fs1] show ?thesis by simp
    next
      case False
      with res have "s' = JDict d1" by (auto split: option.splits json.splits)
      with d add_alias_to_record_frame [OF a] show ?thesis by simp
    qed
  next
    case arr
    from "1.prems" d obtain t' where tt: "traverse_type (dict_get d ''items'' JNull) p = Inr t'"
      and res: "s' = (case map_of d ''items'' of
                        Some _ \<Rightarrow> JDict (setitem d ''items'' t') | None \<Rightarrow> JDict d)"
      by (auto simp: traverse_schema_array [OF arr(2)] split: sum.splits option.splits)
    have ih: "alias_frame (dict_get d ''items'' JNull) t'"
      using "1.IH"(2) [OF d refl arr refl tt] .
    show ?thesis
    proof (cases "map_of d ''items''")
      case None
      with res d show ?thesis by (simp add: dict_frame_refl)
    next
      case (Some t)
      with ih have "alias_frame t t'" by (simp add: dict_get_def)
      from array_frame [OF Some this] res Some d show ?thesis by simp
    qed
  next
    case other
    with "1.prems" d show ?thesis
      using alias_frame_refl [of s'] by (simp add: traverse_schema_other)
  qed
next
  case (2 p)
  then show ?case by simp
next
  case (3 field rest p)
  from "3.prems" obtain f1 t t' rest' where f: "add_alias_to_field field = Inr f1"
    and g: "getitem f1 ''type'' = Inr t"
    and tt: "traverse_type t p = Inr t'"
    and tr: "traverse_fields rest p = Inr rest'"
    and res: "fs' = JDict (setitem f1 ''type'' t') # rest'"
    by (auto split: sum.splits)
  from "3.IH"(1) [OF f g tt] have 1: "alias_frame t t'" .
  from "3.IH"(2) [OF f g tt tr] have 2: "items_frame rest rest'" .
  from items_frame_Cons_setitem [OF f g 1] 2 res show ?case by simp
next
  case (4 t p)
  show ?case
  proof (cases "is_dict t")
    case True
    with "4.prems" have "traverse_schema t p = Inr t'" by (simp add: traverse_type.simps)
    from "4.IH"(1) [OF True this] show ?thesis .
  next
    case False
    show ?thesis
    proof (cases t)
      case (JList ts)
      with "4.prems" obtain ts' where u: "traverse_union ts p = Inr ts'" and r: "t' = JList ts'"
        by (auto simp: traverse_type.simps split: sum.splits)
      from "4.IH"(2) [OF False JList u] r JList show ?thesis by simp
    qed (use "4.prems" False in \<open>auto simp: traverse_type.simps\<close>)
  qed
next
  case (5 p)
  then show ?case by simp
next
  case (6 t rest p)
  show ?case
  proof (cases "is_dict t")
    case True
    with "6.prems" obtain t1 rest' where a: "traverse_schema t p = Inr t1"
      and b: "traverse_union rest p = Inr rest'" and r: "ts' = t1 # rest'"
      by (auto split: sum.splits)
    from "6.IH"(1) [OF True a] "6.IH"(2) [OF True a b] r show ?thesis by simp
  next
    case False
    with "6.prems" obtain rest' where b: "traverse_union rest p = Inr rest'"
      and r: "ts' = t # rest'"
      by (auto split: sum.splits)
    from "6.IH"(3) [OF False b] r show ?thesis by (simp add: alias_frame_refl)
  qed
qed

lemma frame_without_aliases:
  "alias_frame v v' \<Longrightarrow> without_aliases v' = without_aliases v"
  "items_frame xs xs' \<Longrightarrow> without_aliases_list xs' = without_aliases_list xs"
  "dict_frame d d' \<Longrightarrow> without_aliases_dict d' = without_aliases_dict d"
proof (induction v v' and xs xs' and d d' rule: alias_frame_items_frame_dict_frame.induct)
qed auto

lemma add_aliases_is_traverse: "add_aliases_to_avro_schema s p = traverse_schema s p"
  by (simp add: add_aliases_to_avro_schema_def split: sum.splits)

text \<open>
  C1. Whenever the traversal of a tree \<open>s\<close> returns, with the tree \<open>s'\<close> (which
  \<open>add_aliases_to_avro_schema\<close> returns as it is), \<open>s'\<close> is \<open>s\<close> but for aliases: every dict
  has the keys it had, in their order, with possibly a new \<open>aliases\<close> key at its end; every
  list, so every \<open>fields\<close> list, has its elements in their places; every value under
  another key than \<open>aliases\<close> is what it was but for the aliases inside it, so every
  \<open>name\<close> is what it was; and an \<open>aliases\<close> list that was there has at most one str
  appended. Without their \<open>aliases\<close> entries the two trees are equal.
\<close>

theorem traversal_changes_only_aliases:
  assumes "traverse_schema s p = Inr s'"
  shows "add_aliases_to_avro_schema s p = Inr s' \<and> alias_frame s s' \<and>
         without_aliases s' = without_aliases s"
  using assms traverse_frame(1) [OF assms] frame_without_aliases(1)
  by (simp add: add_aliases_is_traverse)

theorem traversal_changes_only_aliases_witness:
  "traverse_schema
     (JDict [(''type'', JStr ''record''), (''name'', JStr ''UserOrder''),
             (''aliases'', JList [JStr ''old'']),
             (''fields'', JList
                [JDict [(''name'', JStr ''orderId''),
                        (''type'', JList [JStr ''null'',
                           JDict [(''type'', JStr ''record''), (''name'', JStr ''Inner'')]])]])])
     ''User'' =
   Inr (JDict [(''type'', JStr ''record''), (''name'', JStr ''UserOrder''),
             (''aliases'', JList [JStr ''old'', JStr ''order'']),
             (''fields'', JList
                [JDict [(''name'', JStr ''orderId''),
                        (''type'', JList [JStr ''null'',
                           JDict [(''type'', JStr ''record''), (''name'', JStr ''Inner''),
                                  (''aliases'', JList [JStr ''inner''])]]),
                        (''aliases'', JList [JStr ''order_id''])]])]) \<and>
   alias_frame
     (JDict [(''type'', JStr ''record''), (''name'', JStr ''UserOrder''),
             (''aliases'', JList [JStr ''old'']),
             (''fields'', JList
                [JDict [(''name'', JStr ''orderId''),
                        (''type'', JList [JStr ''null'',
                           JDict [(''type'', JStr ''record''), (''name'', JStr ''Inner'')]])]])])
     (JDict [(''type'', JStr ''record''), (''name'', JStr ''UserOrder''),
             (''aliases'', JList [JStr ''old'', JStr ''order'']),
             (''fields'', JList
                [JDict [(''name'', JStr ''orderId''),
                        (''type'', JList [JStr ''null'',
                           JDict [(''type'', JStr ''record''), (''name'', JStr ''Inner''),
                                  (''aliases'', JList [JStr ''inner''])]]),
                        (''aliases'', JList [JStr ''order_id''])]])]) \<and>
   without_aliases
     (JDict [(''type'', JStr ''record''), (''name'', JStr ''UserOrder''),
             (''aliases'', JList [JStr ''old'', JStr ''order'']),
             (''fields'', JList
                [JDict [(''name'', JStr ''orderId''),
                        (''type'', JList [JStr ''null'',
                           JDict [(''type'', JStr ''record''), (''name'', JStr ''Inner''),
                                  (''aliases'', JList [JStr ''inner''])]]),
                        (''aliases'', JList [JStr ''order_id''])]])]) =
   JDict [(''type'', JStr ''record''), (''name'', JStr ''UserOrder''),
          (''fields'', JList
             [JDict [(''name'', JStr ''orderId''),
                     (''type'', JList [JStr ''null'',
                        JDict [(''type'', JStr ''record''), (''name'', JStr ''Inner'')]])]])]"
proof -
  let ?s = "JDict [(''type'', JStr ''record''), (''name'', JStr ''UserOrder''),
             (''aliases'', JList [JStr ''old'']),
             (''fields'', JList
                [JDict [(''name'', JStr ''orderId''),
                        (''type'', JList [JStr ''null'',
                           JDict [(''type'', JStr ''record''), (''name'', JStr ''Inner'')]])]])]"
  let ?s' = "JDict [(''type'', JStr ''record''), (''name'', JStr ''UserOrder''),
             (''aliases'', JList [JStr ''old'', JStr ''order'']),
             (''fields'', JList
                [JDict [(''name'', JStr ''orderId''),
                        (''type'', JList [JStr ''null'',
                           JDict [(''type'', JStr ''record''), (''name'', JStr ''Inner''),
                                  (''aliases'', JList [JStr ''inner''])]]),
                        (''aliases'', JList [JStr ''order_id''])]])]"
  have run: "traverse_schema ?s ''User'' = Inr ?s'" by code_simp
  have w: "without_aliases ?s =
      JDict [(''type'', JStr ''record''), (''name'', JStr ''UserOrder''),
             (''fields'', JList
                [JDict [(''name'', JStr ''orderId''),
                        (''type'', JList [JStr ''null'',
                           JDict [(''type'', JStr ''record''), (''name'', JStr ''Inner'')]])]])]"
    by simp
  from traversal_changes_only_aliases [OF run] have "alias_frame ?s ?s'"
    and "without_aliases ?s' = without_aliases ?s" by simp_all
  with run w show ?thesis by (simp only:) 
qed

section \<open>The exceptions of the traversal\<close>

lemma visit_schema_record:
  "dict_get d ''type'' JNull = JStr ''record'' \<Longrightarrow>
     visit_schema (JDict d) =
       RecordNode d #
         (case map_of d ''fields'' of Some (JList fs) \<Rightarrow> visit_fields fs | _ \<Rightarrow> [])"
  by (simp add: visit_schema.simps)

lemma visit_schema_array:
  "dict_get d ''type'' JNull = JStr ''array'' \<Longrightarrow>
     visit_schema (JDict d) = visit_type (dict_get d ''items'' JNull)"
  by (simp add: visit_schema.simps)

lemma visit_schema_other:
  "dict_get d ''type'' JNull \<noteq> JStr ''record'' \<Longrightarrow>
   dict_get d ''type'' JNull \<noteq> JStr ''array'' \<Longrightarrow> visit_schema (JDict d) = []"
  by (simp add: visit_schema.simps)

lemma visit_type_dict: "is_dict t \<Longrightarrow> visit_type t = visit_schema t"
  by (simp add: visit_type.simps)

lemma visit_type_list: "visit_type (JList ts) = visit_union ts"
  by (simp add: visit_type.simps)

lemma visit_fields_strs:
  "list_ex (lacks k) (visit_fields (map (\<lambda>x. JStr (g x)) xs)) = False"
  by (induction xs) auto

lemma add_alias_to_record_no_KeyError: "add_alias_to_record d p \<noteq> Inl (KeyError k)"
  by (auto simp: add_alias_to_record_def Let_def split: option.splits json.splits)

lemma iter_no_KeyError: "iter v \<noteq> Inl (KeyError k)"
  by (cases v) auto

lemma add_alias_to_field_KeyError:
  "add_alias_to_field f = Inl (KeyError k) \<Longrightarrow> k = ''name'' \<and> lacks k (FieldNode f)"
  by (auto simp: add_alias_to_field_def Let_def split: option.splits json.splits)

lemma getitem_KeyError:
  "getitem d k' = Inl (KeyError k) \<Longrightarrow> k = k' \<and> map_of d k = None"
  by (auto simp: getitem_def split: option.splits)

lemma is_dict_iff: "is_dict v \<longleftrightarrow> (\<exists>d. v = JDict d)"
  by (cases v) auto

lemma record_fields_KeyError:
  assumes a: "add_alias_to_record d p = Inr d1"
    and it: "iter (dict_get d1 ''fields'' (JList [])) = Inr fs"
    and ex: "list_ex (lacks k) (visit_fields fs)"
  shows "list_ex (lacks k)
           (case map_of d ''fields'' of Some (JList xs) \<Rightarrow> visit_fields xs | _ \<Rightarrow> [])"
proof -
  have same: "map_of d1 ''fields'' = map_of d ''fields''"
    using add_alias_to_record_other [OF a] by simp
  show ?thesis
  proof (cases "map_of d ''fields''")
    case None
    with same it ex show ?thesis by (auto simp: dict_get_def)
  next
    case (Some v)
    with same it have "iter v = Inr fs" by (simp add: dict_get_def)
    with ex Some show ?thesis
      by (cases v) (auto simp: visit_fields_strs)
  qed
qed

lemma KeyError_lacks:
  "traverse_schema schema p = Inl (KeyError k) \<Longrightarrow>
     (k = ''name'' \<or> k = ''type'') \<and> list_ex (lacks k) (visit_schema schema)"
  "traverse_fields fs p = Inl (KeyError k) \<Longrightarrow>
     (k = ''name'' \<or> k = ''type'') \<and> list_ex (lacks k) (visit_fields fs)"
  "traverse_type t p = Inl (KeyError k) \<Longrightarrow>
     (k = ''name'' \<or> k = ''type'') \<and> list_ex (lacks k) (visit_type t)"
  "traverse_union ts p = Inl (KeyError k) \<Longrightarrow>
     (k = ''name'' \<or> k = ''type'') \<and> list_ex (lacks k) (visit_union ts)"
proof (induction schema p and fs p and t p and ts p
    rule: traverse_schema_traverse_fields_traverse_type_traverse_union.induct)
  case (1 schema p)
  from "1.prems" obtain d where d: "schema = JDict d"
    using traverse_schema_not_dict [of schema p] by (cases schema) auto
  consider (rec) "dict_get d ''type'' JNull = JStr ''record''"
    | (arr) "dict_get d ''type'' JNull \<noteq> JStr ''record''"
        "dict_get d ''type'' JNull = JStr ''array''"
    | (other) "dict_get d ''type'' JNull \<noteq> JStr ''record''"
        "dict_get d ''type'' JNull \<noteq> JStr ''array''"
    by blast
  then show ?case
  proof cases
    case rec
    from "1.prems" d obtain d1 fs where a: "add_alias_to_record d p = Inr d1"
      and it: "iter (dict_get d1 ''fields'' (JList [])) = Inr fs"
      and tf: "traverse_fields fs p = Inl (KeyError k)"
      using add_alias_to_record_no_KeyError [of d p k] iter_no_KeyError [of _ k]
      by (auto simp: traverse_schema_record [OF rec] split: sum.splits option.splits json.splits)
    from "1.IH"(1) [OF d refl rec a refl it tf]
    have k: "k = ''name'' \<or> k = ''type''" and ex: "list_ex (lacks k) (visit_fields fs)"
      by simp_all
    from record_fields_KeyError [OF a it ex] k d show ?thesis
      by (simp add: visit_schema_record [OF rec])
  next
    case arr
    from "1.prems" d have tt: "traverse_type (dict_get d ''items'' JNull) p = Inl (KeyError k)"
      by (auto simp: traverse_schema_array [OF arr(2)] split: sum.splits option.splits)
    from "1.IH"(2) [OF d refl arr refl tt] d show ?thesis
      by (simp add: visit_schema_array [OF arr(2)])
  next
    case other
    with "1.prems" d show ?thesis by (simp add: traverse_schema_other)
  qed
next
  case (2 p)
  then show ?case by simp
next
  case (3 field rest p)
  show ?case
  proof (cases "add_alias_to_field field")
    case (Inl e)
    with "3.prems" have "add_alias_to_field field = Inl (KeyError k)" by simp
    from add_alias_to_field_KeyError [OF this] show ?thesis by auto
  next
    case f: (Inr f1)
    from add_alias_to_field_other [OF f] obtain fd where fd: "field = JDict fd"
      and same: "map_of f1 ''type'' = map_of fd ''type''" by auto
    show ?thesis
    proof (cases "getitem f1 ''type''")
      case (Inl e)
      with "3.prems" f have "getitem f1 ''type'' = Inl (KeyError k)" by simp
      from getitem_KeyError [OF this] same fd show ?thesis by auto
    next
      case g: (Inr t)
      then have t: "map_of fd ''type'' = Some t"
        using same by (simp add: getitem_def split: option.splits)
      show ?thesis
      proof (cases "traverse_type t p")
        case (Inl e)
        with "3.prems" f g have "traverse_type t p = Inl (KeyError k)" by simp
        from "3.IH"(1) [OF f g this] fd t show ?thesis by simp
      next
        case tt: (Inr t')
        with "3.prems" f g have "traverse_fields rest p = Inl (KeyError k)"
          by (simp split: sum.splits)
        from "3.IH"(2) [OF f g tt this] show ?thesis by simp
      qed
    qed
  qed
next
  case (4 t p)
  show ?case
  proof (cases "is_dict t")
    case True
    with "4.prems" have "traverse_schema t p = Inl (KeyError k)"
      by (simp add: traverse_type.simps)
    from "4.IH"(1) [OF True this] True show ?thesis by (simp add: visit_type_dict)
  next
    case False
    show ?thesis
    proof (cases t)
      case (JList ts)
      with "4.prems" have "traverse_union ts p = Inl (KeyError k)"
        by (auto simp: traverse_type.simps split: sum.splits)
      from "4.IH"(2) [OF False JList this] JList show ?thesis by (simp add: visit_type_list)
    qed (use "4.prems" False in \<open>auto simp: traverse_type.simps\<close>)
  qed
next
  case (5 p)
  then show ?case by simp
next
  case (6 t rest p)
  show ?case
  proof (cases "is_dict t")
    case True
    show ?thesis
    proof (cases "traverse_schema t p")
      case (Inl e)
      with "6.prems" True have "traverse_schema t p = Inl (KeyError k)" by simp
      from "6.IH"(1) [OF True this] True show ?thesis by simp
    next
      case (Inr t')
      with "6.prems" True have "traverse_union rest p = Inl (KeyError k)"
        by (simp split: sum.splits)
      from "6.IH"(2) [OF True Inr this] show ?thesis by simp
    qed
  next
    case False
    with "6.prems" have "traverse_union rest p = Inl (KeyError k)"
      by (simp split: sum.splits)
    from "6.IH"(3) [OF False this] show ?thesis by simp
  qed
qed

lemma add_alias_to_record_ok:
  "name_ok d \<Longrightarrow> aliases_ok d \<Longrightarrow> \<exists>d1. add_alias_to_record d p = Inr d1"
  by (auto simp: add_alias_to_record_def name_ok_def aliases_ok_def Let_def
      split: option.splits json.splits)

lemma add_alias_to_field_ok:
  "name_ok fd \<Longrightarrow> aliases_ok fd \<Longrightarrow> map_of fd ''name'' \<noteq> None \<Longrightarrow>
     \<exists>f1. add_alias_to_field (JDict fd) = Inr f1"
  by (auto simp: add_alias_to_field_def name_ok_def aliases_ok_def Let_def
      split: option.splits json.splits)

lemma add_alias_to_field_no_name:
  "map_of fd ''name'' = None \<Longrightarrow> add_alias_to_field (JDict fd) = Inl (KeyError ''name'')"
  by (simp add: add_alias_to_field_def)

lemma node_ok_Field: "node_ok (FieldNode f) \<Longrightarrow> \<exists>fd. f = JDict fd \<and> name_ok fd \<and> aliases_ok fd"
  by (cases f) auto

lemma outcome_ok_Inl [simp]: "outcome_ok ns (Inl (KeyError k)) = list_ex incomplete ns"
  by (simp add: outcome_ok_def raises_KeyError_def returns_def)

lemma outcome_ok_Inr [simp]: "outcome_ok ns (Inr x) = (\<not> list_ex incomplete ns)"
  by (simp add: outcome_ok_def raises_KeyError_def returns_def)

lemma outcome_ok_cases:
  assumes "outcome_ok ns r"
  obtains (err) k where "r = Inl (KeyError k)" and "list_ex incomplete ns"
    | (ok) x where "r = Inr x" and "\<not> list_ex incomplete ns"
  using assms
  by (auto simp: outcome_ok_def raises_KeyError_def returns_def
      split: if_splits sum.splits py_error.splits)

lemma shaped_outcome:
  "is_dict schema \<Longrightarrow> list_all node_ok (visit_schema schema) \<Longrightarrow>
     outcome_ok (visit_schema schema) (traverse_schema schema p)"
  "list_all node_ok (visit_fields fs) \<Longrightarrow>
     outcome_ok (visit_fields fs) (traverse_fields fs p)"
  "list_all node_ok (visit_type t) \<Longrightarrow>
     outcome_ok (visit_type t) (traverse_type t p)"
  "list_all node_ok (visit_union ts) \<Longrightarrow>
     outcome_ok (visit_union ts) (traverse_union ts p)"
proof (induction schema p and fs p and t p and ts p
    rule: traverse_schema_traverse_fields_traverse_type_traverse_union.induct)
  case (1 schema p)
  from "1.prems"(1) obtain d where d: "schema = JDict d" by (auto simp: is_dict_iff)
  consider (rec) "dict_get d ''type'' JNull = JStr ''record''"
    | (arr) "dict_get d ''type'' JNull \<noteq> JStr ''record''"
        "dict_get d ''type'' JNull = JStr ''array''"
    | (other) "dict_get d ''type'' JNull \<noteq> JStr ''record''"
        "dict_get d ''type'' JNull \<noteq> JStr ''array''"
    by blast
  then show ?case
  proof cases
    case rec
    note v = visit_schema_record [OF rec]
    from "1.prems"(2) d v have ok: "name_ok d" "aliases_ok d" "fields_ok d" by simp_all
    from add_alias_to_record_ok [OF ok(1,2)] obtain d1
      where a: "add_alias_to_record d p = Inr d1" by blast
    have same: "map_of d1 ''fields'' = map_of d ''fields''"
      using add_alias_to_record_other [OF a] by simp
    show ?thesis
    proof (cases "map_of d ''fields''")
      case None
      with same a d v show ?thesis
        by (simp add: traverse_schema_record [OF rec] dict_get_def incomplete_def)
    next
      case (Some fv)
      with ok(3) obtain xs where xs: "fv = JList xs"
        by (auto simp: fields_ok_def split: json.splits)
      with Some same have it: "iter (dict_get d1 ''fields'' (JList [])) = Inr xs"
        by (simp add: dict_get_def)
      from "1.prems"(2) d v Some xs have "list_all node_ok (visit_fields xs)" by simp
      from "1.IH"(1) [OF d refl rec a refl it this]
      have "outcome_ok (visit_fields xs) (traverse_fields xs p)" .
      then show ?thesis
      proof (cases rule: outcome_ok_cases)
        case (err k)
        with a it d v Some xs show ?thesis
          by (simp add: traverse_schema_record [OF rec])
      next
        case (ok fs')
        with a it d v Some xs same show ?thesis
          by (simp add: traverse_schema_record [OF rec] incomplete_def)
      qed
    qed
  next
    case arr
    note v = visit_schema_array [OF arr(2)]
    from "1.prems"(2) d v have "list_all node_ok (visit_type (dict_get d ''items'' JNull))"
      by simp
    from "1.IH"(2) [OF d refl arr refl this]
    have "outcome_ok (visit_type (dict_get d ''items'' JNull))
            (traverse_type (dict_get d ''items'' JNull) p)" .
    then show ?thesis
    proof (cases rule: outcome_ok_cases)
      case (err k)
      with d v show ?thesis by (simp add: traverse_schema_array [OF arr(2)])
    next
      case (ok t')
      with d v show ?thesis
        by (simp add: traverse_schema_array [OF arr(2)] split: option.splits)
    qed
  next
    case other
    with d show ?thesis by (simp add: traverse_schema_other visit_schema_other)
  qed
next
  case (2 p)
  then show ?case by simp
next
  case (3 field rest p)
  from "3.prems" have nf: "node_ok (FieldNode field)" by simp
  from node_ok_Field [OF nf] obtain fd where fd: "field = JDict fd"
    and ok: "name_ok fd" "aliases_ok fd" by blast
  show ?case
  proof (cases "map_of fd ''name''")
    case None
    with fd show ?thesis
      by (simp add: add_alias_to_field_no_name incomplete_def)
  next
    case (Some n)
    then have named: "\<not> lacks ''name'' (FieldNode field)" using fd by simp
    from add_alias_to_field_ok [OF ok] Some fd obtain f1
      where f: "add_alias_to_field field = Inr f1" by auto
    from add_alias_to_field_other [OF f] fd
    have same: "map_of f1 ''type'' = map_of fd ''type''" by auto
    show ?thesis
    proof (cases "map_of fd ''type''")
      case None
      with same have "getitem f1 ''type'' = Inl (KeyError ''type'')"
        by (simp add: getitem_def)
      with f None fd show ?thesis by (simp add: incomplete_def)
    next
      case t: (Some t)
      with same have g: "getitem f1 ''type'' = Inr t" by (simp add: getitem_def)
      from "3.prems" fd t have okt: "list_all node_ok (visit_type t)"
        and okr: "list_all node_ok (visit_fields rest)" by simp_all
      have here: "\<not> incomplete (FieldNode field)"
        using fd Some t by (simp add: incomplete_def)
      from "3.IH"(1) [OF f g okt] have "outcome_ok (visit_type t) (traverse_type t p)" .
      then show ?thesis
      proof (cases rule: outcome_ok_cases)
        case (err k)
        with f g fd t show ?thesis by simp
      next
        case tt: (ok t')
        from "3.IH"(2) [OF f g tt(1) okr]
        have "outcome_ok (visit_fields rest) (traverse_fields rest p)" .
        then show ?thesis
        proof (cases rule: outcome_ok_cases)
          case (err k)
          with f g tt fd t show ?thesis by simp
        next
          case (ok rest')
          with f g tt fd t here show ?thesis by simp
        qed
      qed
    qed
  qed
next
  case (4 t p)
  show ?case
  proof (cases "is_dict t")
    case True
    with "4.prems" have "list_all node_ok (visit_schema t)" by (simp add: visit_type_dict)
    from "4.IH"(1) [OF True True this] True show ?thesis
      by (simp add: visit_type_dict traverse_type.simps)
  next
    case False
    show ?thesis
    proof (cases t)
      case (JList ts)
      with "4.prems" have "list_all node_ok (visit_union ts)" by (simp add: visit_type_list)
      from "4.IH"(2) [OF False JList this]
      have "outcome_ok (visit_union ts) (traverse_union ts p)" .
      then show ?thesis
        by (cases rule: outcome_ok_cases)
          (simp_all add: JList visit_type_list traverse_type.simps)
    qed (use False in \<open>simp_all add: visit_type.simps traverse_type.simps\<close>)
  qed
next
  case (5 p)
  then show ?case by simp
next
  case (6 t rest p)
  show ?case
  proof (cases "is_dict t")
    case True
    with "6.prems" have okt: "list_all node_ok (visit_schema t)"
      and okr: "list_all node_ok (visit_union rest)" by simp_all
    from "6.IH"(1) [OF True True okt]
    have "outcome_ok (visit_schema t) (traverse_schema t p)" .
    then show ?thesis
    proof (cases rule: outcome_ok_cases)
      case (err k)
      with True show ?thesis by simp
    next
      case tt: (ok t')
      from "6.IH"(2) [OF True tt(1) okr]
      have "outcome_ok (visit_union rest) (traverse_union rest p)" .
      then show ?thesis
        by (cases rule: outcome_ok_cases) (use True tt in simp_all)
    qed
  next
    case False
    with "6.prems" have okr: "list_all node_ok (visit_union rest)" by simp
    from "6.IH"(3) [OF False okr]
    have "outcome_ok (visit_union rest) (traverse_union rest p)" .
    then show ?thesis
      by (cases rule: outcome_ok_cases) (use False in simp_all)
  qed
qed

lemma traverse_fields_no_name:
  "map_of fd ''name'' = None \<Longrightarrow> traverse_fields (JDict fd # rest) p = Inl (KeyError ''name'')"
  by (simp add: add_alias_to_field_no_name)

lemma traverse_fields_no_type:
  assumes "map_of fd ''name'' = Some (JStr n)" and "aliases_ok fd"
    and "map_of fd ''type'' = None"
  shows "traverse_fields (JDict fd # rest) p = Inl (KeyError ''type'')"
proof -
  have "getitem (with_alias fd (to_snake_case n)) ''type'' = Inl (KeyError ''type'')"
    using assms(3) by (simp add: getitem_def map_of_with_alias)
  with add_alias_to_field_named [OF assms(1,2)] show ?thesis by simp
qed

text \<open>
  C7. A \<open>KeyError\<close> comes out of the traversal, and so out of
  \<open>add_aliases_to_avro_schema\<close>, only for the key \<open>name\<close> or \<open>type\<close>, and only when a field
  that the traversal reaches lacks that key. On a schema whose reached nodes have the
  shapes of the data model, it comes out exactly when a reached field lacks \<open>name\<close> or
  \<open>type\<close> (a field of the record or of a record nested in it), and otherwise the traversal
  returns. In the loop over the fields, a field without \<open>name\<close> makes
  \<open>add_alias_to_field\<close> raise \<open>KeyError\<close> for \<open>name\<close>, and a field with a name but without
  \<open>type\<close> makes \<open>field["type"]\<close> raise \<open>KeyError\<close> for \<open>type\<close>; nothing catches either.
\<close>

theorem missing_key_raises_KeyError:
  "(traverse_schema s p = Inl (KeyError k) \<longrightarrow>
      (k = ''name'' \<or> k = ''type'') \<and> list_ex (lacks k) (visit_schema s) \<and>
      add_aliases_to_avro_schema s p = Inl (KeyError k)) \<and>
   (is_dict s \<longrightarrow> list_all node_ok (visit_schema s) \<longrightarrow>
      ((\<exists>k'. add_aliases_to_avro_schema s p = Inl (KeyError k')) \<longleftrightarrow>
         list_ex incomplete (visit_schema s)) \<and>
      ((\<exists>s'. add_aliases_to_avro_schema s p = Inr s') \<longleftrightarrow>
         \<not> list_ex incomplete (visit_schema s))) \<and>
   (map_of fd ''name'' = None \<longrightarrow>
      add_alias_to_field (JDict fd) = Inl (KeyError ''name'') \<and>
      traverse_fields (JDict fd # rest) p = Inl (KeyError ''name'')) \<and>
   (map_of fd ''name'' = Some (JStr n) \<longrightarrow> aliases_ok fd \<longrightarrow> map_of fd ''type'' = None \<longrightarrow>
      traverse_fields (JDict fd # rest) p = Inl (KeyError ''type''))"
proof -
  have 1: "(k = ''name'' \<or> k = ''type'') \<and> list_ex (lacks k) (visit_schema s) \<and>
      add_aliases_to_avro_schema s p = Inl (KeyError k)"
    if "traverse_schema s p = Inl (KeyError k)"
    using KeyError_lacks(1) [OF that] that by (simp add: add_aliases_is_traverse)
  have 2: "((\<exists>k'. add_aliases_to_avro_schema s p = Inl (KeyError k')) \<longleftrightarrow>
         list_ex incomplete (visit_schema s)) \<and>
      ((\<exists>s'. add_aliases_to_avro_schema s p = Inr s') \<longleftrightarrow>
         \<not> list_ex incomplete (visit_schema s))"
    if "is_dict s" and "list_all node_ok (visit_schema s)"
    using shaped_outcome(1) [OF that, of p]
    by (cases rule: outcome_ok_cases) (simp_all add: add_aliases_is_traverse)
  from 1 2 add_alias_to_field_no_name [of fd] traverse_fields_no_name [of fd rest p]
    traverse_fields_no_type [of fd n rest p]
  show ?thesis by blast
qed

theorem missing_key_raises_KeyError_witness:
  "is_dict (JDict [(''type'', JStr ''record''), (''name'', JStr ''UserOrder''),
      (''fields'', JList
         [JDict [(''name'', JStr ''orderId''), (''type'', JStr ''string'')],
          JDict [(''name'', JStr ''lineItems'')]])]) \<and>
   list_all node_ok (visit_schema (JDict [(''type'', JStr ''record''), (''name'', JStr ''UserOrder''),
      (''fields'', JList
         [JDict [(''name'', JStr ''orderId''), (''type'', JStr ''string'')],
          JDict [(''name'', JStr ''lineItems'')]])])) \<and>
   list_ex incomplete (visit_schema (JDict [(''type'', JStr ''record''), (''name'', JStr ''UserOrder''),
      (''fields'', JList
         [JDict [(''name'', JStr ''orderId''), (''type'', JStr ''string'')],
          JDict [(''name'', JStr ''lineItems'')]])])) \<and>
   (\<exists>k'. add_aliases_to_avro_schema (JDict [(''type'', JStr ''record''), (''name'', JStr ''UserOrder''),
      (''fields'', JList
         [JDict [(''name'', JStr ''orderId''), (''type'', JStr ''string'')],
          JDict [(''name'', JStr ''lineItems'')]])]) ''User'' = Inl (KeyError k')) \<and>
   traverse_schema (JDict [(''type'', JStr ''record''), (''name'', JStr ''UserOrder''),
      (''fields'', JList
         [JDict [(''name'', JStr ''orderId''), (''type'', JStr ''string'')],
          JDict [(''name'', JStr ''lineItems'')]])]) ''User'' = Inl (KeyError ''type'') \<and>
   list_ex (lacks ''type'') (visit_schema (JDict [(''type'', JStr ''record''), (''name'', JStr ''UserOrder''),
      (''fields'', JList
         [JDict [(''name'', JStr ''orderId''), (''type'', JStr ''string'')],
          JDict [(''name'', JStr ''lineItems'')]])])) \<and>
   map_of [(''type'', JStr ''string'')] ''name'' = None \<and>
   traverse_fields [JDict [(''type'', JStr ''string'')]] ''User'' = Inl (KeyError ''name'')"
proof -
  let ?s = "JDict [(''type'', JStr ''record''), (''name'', JStr ''UserOrder''),
      (''fields'', JList
         [JDict [(''name'', JStr ''orderId''), (''type'', JStr ''string'')],
          JDict [(''name'', JStr ''lineItems'')]])]"
  note inst = missing_key_raises_KeyError
    [of ?s "''User''" "''type''" "[(''type'', JStr ''string'')]" "[]" "''x''"]
  have d: "is_dict ?s" by simp
  have ok: "list_all node_ok (visit_schema ?s)" by code_simp
  have inc: "list_ex incomplete (visit_schema ?s)" by code_simp
  have run: "traverse_schema ?s ''User'' = Inl (KeyError ''type'')" by code_simp
  have nn: "map_of [(''type'', JStr ''string'')] ''name'' = None" by simp
  from inst d ok inc
  have 1: "\<exists>k'. add_aliases_to_avro_schema ?s ''User'' = Inl (KeyError k')" by blast
  from inst run have 2: "list_ex (lacks ''type'') (visit_schema ?s)" by blast
  from inst nn
  have 3: "traverse_fields [JDict [(''type'', JStr ''string'')]] ''User'' = Inl (KeyError ''name'')"
    by blast
  from d ok inc 1 run 2 nn 3 show ?thesis by blast
qed

section \<open>What a run adds, and a second run\<close>

lemma aliases_of_setitem: "k \<noteq> ''aliases'' \<Longrightarrow> aliases_of (setitem d k v) = aliases_of d"
  by (simp add: aliases_of_def map_of_setitem)

lemma add_alias_to_record_grows:
  assumes a: "add_alias_to_record d p = Inr d1"
    and n: "map_of d2 ''name'' = map_of d1 ''name''"
    and al: "map_of d2 ''aliases'' = map_of d1 ''aliases''"
  shows "grows p (RecordNode d) (RecordNode d2)"
proof (cases "map_of d ''name''")
  case None
  with a have "d1 = d" by (simp add: add_alias_to_record_def)
  with None n al show ?thesis by (simp add: grows_def aliases_of_def)
next
  case (Some v)
  with a obtain nm where v: "v = JStr nm" and ok: "aliases_ok d"
    by (auto simp: add_alias_to_record_def aliases_ok_def Let_def split: json.splits option.splits)
  from add_alias_to_record_named [of d nm p] Some v ok a
  have d1: "d1 = with_alias d (to_snake_case (removeprefix nm p))" by simp
  with n al Some v show ?thesis
    by (simp add: grows_def aliases_of_def [of d2] map_of_with_alias)
qed

lemma add_alias_to_record_again:
  assumes a: "add_alias_to_record d p = Inr d1"
    and n: "map_of d2 ''name'' = map_of d1 ''name''"
    and al: "map_of d2 ''aliases'' = map_of d1 ''aliases''"
  shows "\<exists>d3. add_alias_to_record d2 p = Inr d3"
proof (cases "map_of d ''name''")
  case None
  with a have "d1 = d" by (simp add: add_alias_to_record_def)
  with None n show ?thesis by (simp add: add_alias_to_record_def)
next
  case (Some v)
  with a obtain nm where v: "v = JStr nm" and ok: "aliases_ok d"
    by (auto simp: add_alias_to_record_def aliases_ok_def Let_def split: json.splits option.splits)
  from add_alias_to_record_named [of d nm p] Some v ok a
  have d1: "d1 = with_alias d (to_snake_case (removeprefix nm p))" by simp
  with n al Some v have "map_of d2 ''name'' = Some (JStr nm)" and "aliases_ok d2"
    by (simp_all add: map_of_with_alias aliases_ok_def)
  from add_alias_to_record_named [OF this] show ?thesis by blast
qed

lemma add_alias_to_field_grows:
  assumes a: "add_alias_to_field f = Inr f1"
    and n: "map_of f2 ''name'' = map_of f1 ''name''"
    and al: "map_of f2 ''aliases'' = map_of f1 ''aliases''"
  shows "grows p (FieldNode f) (FieldNode (JDict f2)) \<and>
         (\<exists>f3. add_alias_to_field (JDict f2) = Inr f3)"
proof -
  from a obtain fd nm where f: "f = JDict fd" and nm: "map_of fd ''name'' = Some (JStr nm)"
    and ok: "aliases_ok fd"
    by (auto simp: add_alias_to_field_def aliases_ok_def Let_def split: json.splits option.splits)
  from add_alias_to_field_named [OF nm ok] a f
  have f1: "f1 = with_alias fd (to_snake_case nm)" by simp
  with n al nm have 2: "map_of f2 ''name'' = Some (JStr nm)" "aliases_ok f2"
    by (simp_all add: map_of_with_alias aliases_ok_def)
  from f1 n al nm f have "grows p (FieldNode f) (FieldNode (JDict f2))"
    by (simp add: grows_def aliases_of_def [of f2] map_of_with_alias)
  with add_alias_to_field_named [OF 2] show ?thesis by blast
qed

lemma returns_iff: "returns r \<longleftrightarrow> (\<exists>x. r = Inr x)"
  by (cases r) (simp_all add: returns_def)

lemma dict_get_cong: "map_of d' k = map_of d k \<Longrightarrow> dict_get d' k v = dict_get d k v"
  by (simp add: dict_get_def)

lemma record_step:
  assumes rec: "dict_get d ''type'' JNull = JStr ''record''"
    and a: "add_alias_to_record d p = Inr d1"
    and xs: "map_of d1 ''fields'' = Some (JList xs)"
    and ih: "list_all2 (grows p) (visit_fields xs) (visit_fields fs')"
    and ret: "returns (traverse_fields fs' p)"
  shows "list_all2 (grows p) (visit_schema (JDict d))
           (visit_schema (JDict (setitem d1 ''fields'' (JList fs')))) \<and>
         returns (traverse_schema (JDict (setitem d1 ''fields'' (JList fs'))) p)"
proof -
  let ?d2 = "setitem d1 ''fields'' (JList fs')"
  note same = add_alias_to_record_other [OF a]
  have f0: "map_of d ''fields'' = Some (JList xs)" using same xs by simp
  have rec2: "dict_get ?d2 ''type'' JNull = JStr ''record''"
    using rec same [of "''type''"] by (simp add: dict_get_def map_of_setitem)
  have g: "grows p (RecordNode d) (RecordNode ?d2)"
    by (rule add_alias_to_record_grows [OF a]) (simp_all add: map_of_setitem)
  have v: "list_all2 (grows p) (visit_schema (JDict d)) (visit_schema (JDict ?d2))"
    using g ih f0
    by (simp add: visit_schema_record [OF rec] visit_schema_record [OF rec2] map_of_setitem)
  from add_alias_to_record_again [OF a, of ?d2] obtain d3
    where a2: "add_alias_to_record ?d2 p = Inr d3" by (auto simp: map_of_setitem)
  have f3: "map_of d3 ''fields'' = Some (JList fs')"
    using add_alias_to_record_other [OF a2, of "''fields''"] by (simp add: map_of_setitem)
  from ret obtain fs2 where "traverse_fields fs' p = Inr fs2" by (auto simp: returns_iff)
  with a2 f3 have "returns (traverse_schema (JDict ?d2) p)"
    by (simp add: traverse_schema_record [OF rec2] dict_get_def returns_def)
  with v show ?thesis by simp
qed

lemma record_step_nolist:
  assumes rec: "dict_get d ''type'' JNull = JStr ''record''"
    and a: "add_alias_to_record d p = Inr d1"
    and nl: "\<nexists>xs. map_of d1 ''fields'' = Some (JList xs)"
    and it: "iter (dict_get d1 ''fields'' (JList [])) = Inr fs"
    and tf: "traverse_fields fs p = Inr fs'"
  shows "list_all2 (grows p) (visit_schema (JDict d)) (visit_schema (JDict d1)) \<and>
         returns (traverse_schema (JDict d1) p)"
proof -
  note same = add_alias_to_record_other [OF a]
  have rec1: "dict_get d1 ''type'' JNull = JStr ''record''"
    using rec same [of "''type''"] by (simp add: dict_get_def)
  have nl0: "\<nexists>xs. map_of d ''fields'' = Some (JList xs)"
    using nl same [of "''fields''"] by simp
  have g: "grows p (RecordNode d) (RecordNode d1)"
    by (rule add_alias_to_record_grows [OF a]) simp_all
  have v: "list_all2 (grows p) (visit_schema (JDict d)) (visit_schema (JDict d1))"
    using g nl nl0
    by (auto simp: visit_schema_record [OF rec] visit_schema_record [OF rec1]
        split: option.splits json.splits)
  from add_alias_to_record_again [OF a, of d1] obtain d3
    where a2: "add_alias_to_record d1 p = Inr d3" by auto
  have "map_of d3 ''fields'' = map_of d1 ''fields''"
    using add_alias_to_record_other [OF a2, of "''fields''"] by simp
  then have "dict_get d3 ''fields'' (JList []) = dict_get d1 ''fields'' (JList [])"
    and "\<nexists>xs. map_of d3 ''fields'' = Some (JList xs)"
    using nl by (simp_all add: dict_get_def)
  with a2 it tf have "returns (traverse_schema (JDict d1) p)"
    by (auto simp: traverse_schema_record [OF rec1] returns_def
        split: option.splits json.splits)
  with v show ?thesis by simp
qed

lemma array_step:
  assumes arr: "dict_get d ''type'' JNull = JStr ''array''"
    and i: "map_of d ''items'' = Some t"
    and ih: "list_all2 (grows p) (visit_type t) (visit_type t')"
    and ret: "returns (traverse_type t' p)"
  shows "list_all2 (grows p) (visit_schema (JDict d))
           (visit_schema (JDict (setitem d ''items'' t'))) \<and>
         returns (traverse_schema (JDict (setitem d ''items'' t')) p)"
proof -
  let ?d2 = "setitem d ''items'' t'"
  have arr2: "dict_get ?d2 ''type'' JNull = JStr ''array''"
    using arr by (simp add: dict_get_def map_of_setitem)
  have i2: "dict_get ?d2 ''items'' JNull = t'" by (simp add: dict_get_def map_of_setitem)
  from i have i0: "dict_get d ''items'' JNull = t" by (simp add: dict_get_def)
  from ret obtain t2 where "traverse_type t' p = Inr t2" by (auto simp: returns_iff)
  then have "returns (traverse_schema (JDict ?d2) p)"
    by (simp add: traverse_schema_array [OF arr2] i2 returns_def map_of_setitem)
  with ih i0 i2 show ?thesis
    by (simp add: visit_schema_array [OF arr] visit_schema_array [OF arr2])
qed

lemma field_step:
  assumes f: "add_alias_to_field field = Inr f1"
    and g: "getitem f1 ''type'' = Inr t"
    and iht: "list_all2 (grows p) (visit_type t) (visit_type t')"
    and rett: "returns (traverse_type t' p)"
    and ihr: "list_all2 (grows p) (visit_fields rest) (visit_fields rest')"
    and retr: "returns (traverse_fields rest' p)"
  shows "list_all2 (grows p) (visit_fields (field # rest))
           (visit_fields (JDict (setitem f1 ''type'' t') # rest')) \<and>
         returns (traverse_fields (JDict (setitem f1 ''type'' t') # rest') p)"
proof -
  let ?f2 = "setitem f1 ''type'' t'"
  from add_alias_to_field_other [OF f] obtain fd where fd: "field = JDict fd"
    and same: "map_of f1 ''type'' = map_of fd ''type''" by auto
  from g same have t: "map_of fd ''type'' = Some t"
    by (simp add: getitem_def split: option.splits)
  from add_alias_to_field_grows [OF f, of ?f2 p] obtain f3
    where gr: "grows p (FieldNode field) (FieldNode (JDict ?f2))"
      and a2: "add_alias_to_field (JDict ?f2) = Inr f3"
    by (auto simp: map_of_setitem)
  have v: "list_all2 (grows p) (visit_fields (field # rest)) (visit_fields (JDict ?f2 # rest'))"
    using gr iht ihr fd t by (simp add: map_of_setitem list_all2_appendI)
  from add_alias_to_field_other [OF a2] have "map_of f3 ''type'' = Some t'"
    by (simp add: map_of_setitem)
  then have g3: "getitem f3 ''type'' = Inr t'" by (simp add: getitem_def)
  from rett retr obtain t2 rest2 where "traverse_type t' p = Inr t2"
    and "traverse_fields rest' p = Inr rest2" by (auto simp: returns_iff)
  with a2 g3 have "returns (traverse_fields (JDict ?f2 # rest') p)"
    by (simp add: returns_def)
  with v show ?thesis by simp
qed

lemma run_grows:
  "traverse_schema schema p = Inr s' \<Longrightarrow>
     list_all2 (grows p) (visit_schema schema) (visit_schema s') \<and>
     returns (traverse_schema s' p)"
  "traverse_fields fs p = Inr fs' \<Longrightarrow>
     list_all2 (grows p) (visit_fields fs) (visit_fields fs') \<and>
     returns (traverse_fields fs' p)"
  "traverse_type t p = Inr t' \<Longrightarrow>
     list_all2 (grows p) (visit_type t) (visit_type t') \<and>
     returns (traverse_type t' p)"
  "traverse_union ts p = Inr ts' \<Longrightarrow>
     list_all2 (grows p) (visit_union ts) (visit_union ts') \<and>
     returns (traverse_union ts' p)"
proof (induction schema p and fs p and t p and ts p
    arbitrary: s' and fs' and t' and ts'
    rule: traverse_schema_traverse_fields_traverse_type_traverse_union.induct)
  case (1 schema p)
  from "1.prems" obtain d where d: "schema = JDict d"
    using traverse_schema_not_dict [of schema p] by (cases schema) auto
  consider (rec) "dict_get d ''type'' JNull = JStr ''record''"
    | (arr) "dict_get d ''type'' JNull \<noteq> JStr ''record''"
        "dict_get d ''type'' JNull = JStr ''array''"
    | (other) "dict_get d ''type'' JNull \<noteq> JStr ''record''"
        "dict_get d ''type'' JNull \<noteq> JStr ''array''"
    by blast
  then show ?case
  proof cases
    case rec
    from "1.prems" d obtain d1 fs fs1 where a: "add_alias_to_record d p = Inr d1"
      and it: "iter (dict_get d1 ''fields'' (JList [])) = Inr fs"
      and tf: "traverse_fields fs p = Inr fs1"
      and res: "s' = (case map_of d1 ''fields'' of
                       Some (JList _) \<Rightarrow> JDict (setitem d1 ''fields'' (JList fs1))
                     | _ \<Rightarrow> JDict d1)"
      by (auto simp: traverse_schema_record [OF rec] split: sum.splits option.splits json.splits)
    note ih = "1.IH"(1) [OF d refl rec a refl it tf]
    show ?thesis
    proof (cases "\<exists>xs. map_of d1 ''fields'' = Some (JList xs)")
      case True
      then obtain xs where xs: "map_of d1 ''fields'' = Some (JList xs)" by blast
      with it have "fs = xs" by (simp add: dict_get_def)
      with ih have "list_all2 (grows p) (visit_fields xs) (visit_fields fs1)"
        and "returns (traverse_fields fs1 p)" by simp_all
      from record_step [OF rec a xs this] xs res d show ?thesis by simp
    next
      case False
      with res have "s' = JDict d1" by (auto split: option.splits json.splits)
      with record_step_nolist [OF rec a False it tf] d show ?thesis by simp
    qed
  next
    case arr
    from "1.prems" d obtain t' where tt: "traverse_type (dict_get d ''items'' JNull) p = Inr t'"
      and res: "s' = (case map_of d ''items'' of
                        Some _ \<Rightarrow> JDict (setitem d ''items'' t') | None \<Rightarrow> JDict d)"
      by (auto simp: traverse_schema_array [OF arr(2)] split: sum.splits option.splits)
    note ih = "1.IH"(2) [OF d refl arr refl tt]
    show ?thesis
    proof (cases "map_of d ''items''")
      case None
      then have "dict_get d ''items'' JNull = JNull" by (simp add: dict_get_def)
      with None res d "1.prems" show ?thesis
        by (simp add: visit_schema_array [OF arr(2)] visit_type.simps returns_def)
    next
      case (Some t)
      with ih have "list_all2 (grows p) (visit_type t) (visit_type t')"
        and "returns (traverse_type t' p)" by (simp_all add: dict_get_def)
      from array_step [OF arr(2) Some this] res Some d show ?thesis by simp
    qed
  next
    case other
    with "1.prems" d show ?thesis
      by (auto simp: traverse_schema_other visit_schema_other returns_def)
  qed
next
  case (2 p)
  then show ?case by (simp add: returns_def)
next
  case (3 field rest p)
  from "3.prems" obtain f1 t t' rest' where f: "add_alias_to_field field = Inr f1"
    and g: "getitem f1 ''type'' = Inr t"
    and tt: "traverse_type t p = Inr t'"
    and tr: "traverse_fields rest p = Inr rest'"
    and res: "fs' = JDict (setitem f1 ''type'' t') # rest'"
    by (auto split: sum.splits)
  from "3.IH"(1) [OF f g tt] have 1: "list_all2 (grows p) (visit_type t) (visit_type t')"
    and 2: "returns (traverse_type t' p)" by simp_all
  from "3.IH"(2) [OF f g tt tr]
  have 3: "list_all2 (grows p) (visit_fields rest) (visit_fields rest')"
    and 4: "returns (traverse_fields rest' p)" by simp_all
  from field_step [OF f g 1 2 3 4] res show ?case by simp
next
  case (4 t p)
  show ?case
  proof (cases "is_dict t")
    case True
    with "4.prems" have run: "traverse_schema t p = Inr t'" by (simp add: traverse_type.simps)
    then have "alias_frame t t'" by (rule traverse_frame(1))
    with True have "is_dict t'" by (cases t; cases t') auto
    with "4.IH"(1) [OF True run] True show ?thesis
      by (simp add: visit_type_dict traverse_type.simps)
  next
    case False
    show ?thesis
    proof (cases t)
      case (JList ts)
      with "4.prems" obtain ts' where u: "traverse_union ts p = Inr ts'" and r: "t' = JList ts'"
        by (auto simp: traverse_type.simps split: sum.splits)
      from "4.IH"(2) [OF False JList u] r JList show ?thesis
        by (auto simp: visit_type_list traverse_type.simps returns_iff)
    qed (use "4.prems" False in \<open>auto simp: traverse_type.simps visit_type.simps returns_def\<close>)
  qed
next
  case (5 p)
  then show ?case by (simp add: returns_def)
next
  case (6 t rest p)
  show ?case
  proof (cases "is_dict t")
    case True
    with "6.prems" obtain t1 rest' where a: "traverse_schema t p = Inr t1"
      and b: "traverse_union rest p = Inr rest'" and r: "ts' = t1 # rest'"
      by (auto split: sum.splits)
    from a have "alias_frame t t1" by (rule traverse_frame(1))
    with True have d1: "is_dict t1" by (cases t; cases t1) auto
    from "6.IH"(1) [OF True a] "6.IH"(2) [OF True a b] r True d1 show ?thesis
      by (auto simp: list_all2_appendI returns_iff)
  next
    case False
    with "6.prems" obtain rest' where b: "traverse_union rest p = Inr rest'"
      and r: "ts' = t # rest'"
      by (auto split: sum.splits)
    from "6.IH"(3) [OF False b] r False show ?thesis
      by (auto simp: returns_iff)
  qed
qed

lemma grows_map:
  "list_all2 (grows p) xs ys \<Longrightarrow>
     map node_aliases ys = map (\<lambda>n. node_aliases n @ node_alias p n) xs"
  by (induction rule: list_all2_induct) (simp_all add: grows_def)

lemma grows_twice:
  "list_all2 (grows p) xs ys \<Longrightarrow> list_all2 (grows p) ys zs \<Longrightarrow>
     map node_aliases zs = map (\<lambda>n. node_aliases n @ node_alias p n @ node_alias p n) xs"
proof (induction arbitrary: zs rule: list_all2_induct)
  case Nil
  then show ?case by simp
next
  case (Cons x xs y ys)
  from Cons.prems obtain z zs' where zs: "zs = z # zs'" and z: "grows p y z"
    and rest: "list_all2 (grows p) ys zs'"
    by (cases zs) auto
  from Cons.hyps(1) z have "node_aliases z = node_aliases x @ node_alias p x @ node_alias p x"
    by (simp add: grows_def)
  with Cons.IH [OF rest] zs show ?case by simp
qed

lemma grows_named:
  "list_all2 (grows p) xs ys \<Longrightarrow> list_all (\<lambda>n. named n \<longrightarrow> length (node_alias p n) = 1) xs"
  by (induction rule: list_all2_induct) (simp_all add: grows_def)

lemma grows_changes:
  assumes "list_all (\<lambda>n. named n \<longrightarrow> length (node_alias p n) = 1) xs" and "list_ex named xs"
  shows "map (\<lambda>n. node_aliases n @ node_alias p n @ node_alias p n) xs \<noteq>
         map (\<lambda>n. node_aliases n @ node_alias p n) xs"
  using assms by (induction xs) auto

text \<open>
  C2. When a run of the traversal on \<open>s\<close> returns \<open>s'\<close>, then at every node it reaches (the
  nodes correspond one to one, in order) the \<open>aliases\<close> list in \<open>s'\<close> is the list in \<open>s\<close>,
  empty when absent, followed by the run's entries for the node: exactly one for each
  field and each record with a name. A second run, on \<open>s'\<close>, returns too, and leaves at
  every such node the old list followed by the same entry twice; so with at least one such
  node the second result differs from the first: the traversal is not idempotent.
\<close>

theorem aliases_grow_by_one_per_run:
  assumes "traverse_schema s p = Inr s'"
  shows "map node_aliases (visit_schema s') =
           map (\<lambda>n. node_aliases n @ node_alias p n) (visit_schema s) \<and>
         list_all (\<lambda>n. named n \<longrightarrow> length (node_alias p n) = 1) (visit_schema s) \<and>
         (\<exists>s''. traverse_schema s' p = Inr s'' \<and>
            map node_aliases (visit_schema s'') =
              map (\<lambda>n. node_aliases n @ node_alias p n @ node_alias p n) (visit_schema s) \<and>
            (list_ex named (visit_schema s) \<longrightarrow> s'' \<noteq> s'))"
proof -
  from run_grows(1) [OF assms] have g1: "list_all2 (grows p) (visit_schema s) (visit_schema s')"
    and "returns (traverse_schema s' p)" by simp_all
  then obtain s'' where run2: "traverse_schema s' p = Inr s''" by (auto simp: returns_iff)
  from run_grows(1) [OF run2]
  have g2: "list_all2 (grows p) (visit_schema s') (visit_schema s'')" by simp
  note one = grows_map [OF g1] and two = grows_twice [OF g1 g2] and nm = grows_named [OF g1]
  have "s'' \<noteq> s'" if "list_ex named (visit_schema s)"
    using grows_changes [OF nm that] one two by auto
  with one two nm run2 show ?thesis by blast
qed


theorem aliases_grow_by_one_per_run_witness:
  "traverse_schema
     (JDict [(''type'', JStr ''record''), (''name'', JStr ''UserOrder''),
             (''aliases'', JList [JStr ''old'']),
             (''fields'', JList [JDict [(''name'', JStr ''orderId''), (''type'', JStr ''string'')]])])
     ''User'' =
   Inr (JDict [(''type'', JStr ''record''), (''name'', JStr ''UserOrder''),
             (''aliases'', JList [JStr ''old'', JStr ''order'']),
             (''fields'', JList [JDict [(''name'', JStr ''orderId''), (''type'', JStr ''string''),
                                        (''aliases'', JList [JStr ''order_id''])]])]) \<and>
   map node_aliases (visit_schema
     (JDict [(''type'', JStr ''record''), (''name'', JStr ''UserOrder''),
             (''aliases'', JList [JStr ''old'']),
             (''fields'', JList [JDict [(''name'', JStr ''orderId''), (''type'', JStr ''string'')]])])) =
     [[JStr ''old''], []] \<and>
   map node_aliases (visit_schema
     (JDict [(''type'', JStr ''record''), (''name'', JStr ''UserOrder''),
             (''aliases'', JList [JStr ''old'', JStr ''order'']),
             (''fields'', JList [JDict [(''name'', JStr ''orderId''), (''type'', JStr ''string''),
                                        (''aliases'', JList [JStr ''order_id''])]])])) =
     [[JStr ''old'', JStr ''order''], [JStr ''order_id'']] \<and>
   (\<exists>s''. traverse_schema
     (JDict [(''type'', JStr ''record''), (''name'', JStr ''UserOrder''),
             (''aliases'', JList [JStr ''old'', JStr ''order'']),
             (''fields'', JList [JDict [(''name'', JStr ''orderId''), (''type'', JStr ''string''),
                                        (''aliases'', JList [JStr ''order_id''])]])])
     ''User'' = Inr s'' \<and>
     map node_aliases (visit_schema s'') =
       [[JStr ''old'', JStr ''order'', JStr ''order''], [JStr ''order_id'', JStr ''order_id'']])"
proof -
  let ?s = "JDict [(''type'', JStr ''record''), (''name'', JStr ''UserOrder''),
             (''aliases'', JList [JStr ''old'']),
             (''fields'', JList [JDict [(''name'', JStr ''orderId''), (''type'', JStr ''string'')]])]"
  let ?s' = "JDict [(''type'', JStr ''record''), (''name'', JStr ''UserOrder''),
             (''aliases'', JList [JStr ''old'', JStr ''order'']),
             (''fields'', JList [JDict [(''name'', JStr ''orderId''), (''type'', JStr ''string''),
                                        (''aliases'', JList [JStr ''order_id''])]])]"
  have run: "traverse_schema ?s ''User'' = Inr ?s'" by code_simp
  have before: "map node_aliases (visit_schema ?s) = [[JStr ''old''], []]" by code_simp
  have once: "map (\<lambda>n. node_aliases n @ node_alias ''User'' n) (visit_schema ?s) =
      [[JStr ''old'', JStr ''order''], [JStr ''order_id'']]"
    by code_simp
  have twice: "map (\<lambda>n. node_aliases n @ node_alias ''User'' n @ node_alias ''User'' n)
        (visit_schema ?s) =
      [[JStr ''old'', JStr ''order'', JStr ''order''], [JStr ''order_id'', JStr ''order_id'']]"
    by code_simp
  note inst = aliases_grow_by_one_per_run [OF run]
  from inst have 1: "map node_aliases (visit_schema ?s') =
      [[JStr ''old'', JStr ''order''], [JStr ''order_id'']]"
    by (simp only: once)
  from inst obtain s'' where r2: "traverse_schema ?s' ''User'' = Inr s''"
    and "map node_aliases (visit_schema s'') =
      map (\<lambda>n. node_aliases n @ node_alias ''User'' n @ node_alias ''User'' n) (visit_schema ?s)"
    by blast
  then have m2: "map node_aliases (visit_schema s'') =
      [[JStr ''old'', JStr ''order'', JStr ''order''], [JStr ''order_id'', JStr ''order_id'']]"
    by (simp only: twice)
  have 2: "\<exists>s''. traverse_schema ?s' ''User'' = Inr s'' \<and>
      map node_aliases (visit_schema s'') =
        [[JStr ''old'', JStr ''order'', JStr ''order''], [JStr ''order_id'', JStr ''order_id'']]"
  proof (intro exI conjI)
    show "traverse_schema ?s' ''User'' = Inr s''" by (rule r2)
    show "map node_aliases (visit_schema s'') =
        [[JStr ''old'', JStr ''order'', JStr ''order''], [JStr ''order_id'', JStr ''order_id'']]"
      by (rule m2)
  qed
  show ?thesis
  proof (intro conjI)
    show "traverse_schema ?s ''User'' = Inr ?s'" by (rule run)
    show "map node_aliases (visit_schema ?s) = [[JStr ''old''], []]" by (rule before)
    show "map node_aliases (visit_schema ?s') =
        [[JStr ''old'', JStr ''order''], [JStr ''order_id'']]"
      by (rule 1)
    show "\<exists>s''. traverse_schema ?s' ''User'' = Inr s'' \<and>
        map node_aliases (visit_schema s'') =
          [[JStr ''old'', JStr ''order'', JStr ''order''], [JStr ''order_id'', JStr ''order_id'']]"
      by (rule 2)
  qed
qed

end
